theory Spec2Isabelle
  imports Main
begin

section \<open>Data model\<close>

text \<open>
  The store is the PostgreSQL database reached through Prisma; the tables are lists of
  rows in insertion order. Identifiers are the textual keys of the rows, instants are
  milliseconds since the epoch (the value of a JavaScript \<open>Date\<close>).
\<close>

type_synonym ident = string
type_synonym instant = int

datatype inbound_status = Received | Processed

datatype task_status =
  Pending | NeedsClarification | Due | Executing | Sending | Done | Failed

datatype outbox_status = Queued | OutboxSending | Sent | OutboxFailed

datatype event_type =
  EvCreated | EvClarificationSent | EvScheduled | EvDue | EvExecuting | EvDraftGenerated
  | EvSending | EvSent | EvDone | EvFailed | EvRetried

text \<open>Everything a worker can throw; \<open>message\<close> is the \<open>message\<close> of the JavaScript error.\<close>

datatype error =
  Error string
  | RecordNotFound string
  | UniqueConstraint string
  | ValidationFailed string
  | TypeError string
  | UnauthorizedError string

fun message :: "error \<Rightarrow> string" where
  "message (Error m) = m"
| "message (RecordNotFound m) = m"
| "message (UniqueConstraint m) = m"
| "message (ValidationFailed m) = m"
| "message (TypeError m) = m"
| "message (UnauthorizedError m) = m"

record preference =
  timezone :: string
  tone :: string
  defaultAction :: string
  fallbackChannel :: string

record user =
  userId :: ident
  primaryEmail :: "string option"
  whatsappNumber :: "string option"
  displayName :: string
  preferences :: "preference option"

record inbound_message =
  inboundId :: ident
  in_userId :: ident
  in_channel :: string
  providerMessageId :: string
  idempotencyKey :: string
  rawTextRedacted :: "string option"
  in_status :: inbound_status

text \<open>
  The \<open>data\<close> of \<open>prisma.task.create\<close>, then the row with the columns the store fills
  in. \<open>updated_at\<close> is followed where a statement of a worker sets it; \<open>created_at\<close>,
  \<open>received_at\<close> and the keys of events, which no worker reads, are left out.
\<close>

record task_data =
  t_userId :: ident
  sourceInboundId :: ident
  dueAt :: "instant option"
  actionType :: string
  contactHint :: "string option"
  t_context :: "string option"
  t_status :: task_status

record task = task_data +
  taskId :: ident
  attemptCount :: nat
  lastAttemptAt :: "instant option"
  t_updatedAt :: instant

record outbox_payload =
  p_to :: "string option"
  p_subject :: "string option"
  p_body :: string

record outbox_data =
  ob_taskId :: "ident option"
  ob_userId :: ident
  ob_channel :: string
  payload :: outbox_payload
  ob_status :: outbox_status

record outbox_message = outbox_data +
  outboxId :: ident
  attempts :: nat
  nextRetryAt :: instant
  ob_updatedAt :: instant

record draft_result =
  d_subject :: string
  d_body :: string

datatype event_payload =
  NoPayload
  | Source string
  | Question string
  | ScheduledDueAt "string option"
  | Draft draft_result
  | Reason string

record task_event =
  ev_taskId :: ident
  ev_userId :: ident
  eventType :: event_type
  ev_payload :: event_payload

record extraction_result =
  needs_clarification :: bool
  clarifying_question :: string
  due_at_iso :: "string option"
  action_type :: string
  contact_hint :: string
  ex_context :: string

record ingest_job =
  j_inboundId :: ident
  j_userId :: ident

text \<open>The calls made to the two send services, in the order they were made.\<close>

datatype api_call =
  SendEmail "string option" string string
  | SendWhatsApp "string option" string

text \<open>
  The world one worker invocation acts on: the six tables, the jobs handed to the two
  BullMQ queues (job id and payload of every \<open>add\<close>), the send calls made so far and the
  supply of fresh row keys.
\<close>

record world =
  users :: "user list"
  inbound_messages :: "inbound_message list"
  tasks :: "task list"
  outbox :: "outbox_message list"
  task_events :: "task_event list"
  ingest_queue :: "(string \<times> ingest_job) list"
  execute_queue :: "(string \<times> ident) list"
  api_calls :: "api_call list"
  next_uuid :: nat

text \<open>
  What an invocation reads from outside the store: the configuration, the two clocks
  (\<open>new Date()\<close> of the process and \<open>NOW()\<close> of the database), the clock reading of
  \<open>Date.now()\<close> taken when the failure of an outbox row is handled, the outcome of a send
  call (\<open>None\<close> when it resolves, the error message when it rejects), the two calls to the
  language model, and the date functions of the runtime. \<open>returningRank\<close> is the order in
  which the database hands back the rows of an \<open>UPDATE ... RETURNING\<close>: that statement has
  no \<open>ORDER BY\<close> of its own, so the rows come in the order the plan reaches them, lower
  rank first.
\<close>

record env =
  OUTBOX_MAX_ATTEMPTS :: int
  EMAIL_WEBHOOK_SECRET :: string
  returningRank :: "ident \<Rightarrow> nat"
  jsNow :: instant
  dbNow :: instant
  dateNowAt :: "ident \<Rightarrow> instant"
  api :: "api_call \<Rightarrow> string option"
  extractFollowUp :: "string \<Rightarrow> string \<Rightarrow> string \<Rightarrow> error + extraction_result"
  draftFollowUp :: "string \<Rightarrow> string \<Rightarrow> string \<Rightarrow> error + draft_result"
  toISOString :: "instant \<Rightarrow> string"
  parseDate :: "string \<Rightarrow> instant option"
  toLocaleString :: "instant \<Rightarrow> string \<Rightarrow> string"
  hmacSha256Hex :: "string \<Rightarrow> string \<Rightarrow> string"
  isEmail :: "string \<Rightarrow> bool"

section \<open>Store operations\<close>

definition digit_char :: "nat \<Rightarrow> char" where
  "digit_char d = ''0123456789'' ! (d mod 10)"

fun decimal :: "nat \<Rightarrow> string" where
  "decimal n = (if n < 10 then [digit_char n] else decimal (n div 10) @ [digit_char (n mod 10)])"

declare decimal.simps [simp del]

text \<open>
  Modelled from the spec: the key the store gives a new row (the \<open>@default(uuid())\<close> of
  the absent \<open>schema.prisma\<close>). The spec says only that identifiers are opaque unique
  strings; here the n-th key is \<open>id-n\<close>.
\<close>

definition uuid :: "nat \<Rightarrow> ident" where
  "uuid n = ''id-'' @ decimal n"

text \<open>JavaScript truthiness of a nullable string: \<open>null\<close> and the empty string are falsy.\<close>

fun truthy :: "string option \<Rightarrow> bool" where
  "truthy None = False"
| "truthy (Some s) = (s \<noteq> [])"

text \<open>\<open>s || null\<close> on a string.\<close>

definition or_null :: "string \<Rightarrow> string option" where
  "or_null s = (if s = [] then None else Some s)"

definition findUser :: "ident \<Rightarrow> world \<Rightarrow> user option" where
  "findUser uid w = find (\<lambda>u. userId u = uid) (users w)"

definition findUserByEmail :: "string \<Rightarrow> world \<Rightarrow> user option" where
  "findUserByEmail a w = find (\<lambda>u. primaryEmail u = Some a) (users w)"

definition findInbound :: "ident \<Rightarrow> world \<Rightarrow> inbound_message option" where
  "findInbound i w = find (\<lambda>m. inboundId m = i) (inbound_messages w)"

definition findInboundByKey :: "string \<Rightarrow> world \<Rightarrow> inbound_message option" where
  "findInboundByKey k w = find (\<lambda>m. idempotencyKey m = k) (inbound_messages w)"

definition findTask :: "ident \<Rightarrow> world \<Rightarrow> task option" where
  "findTask i w = find (\<lambda>t. taskId t = i) (tasks w)"

definition findOutbox :: "ident \<Rightarrow> world \<Rightarrow> outbox_message option" where
  "findOutbox i w = find (\<lambda>m. outboxId m = i) (outbox w)"

text \<open>
  \<open>prisma.<model>.update({ where: { id }, data })\<close>: the row with that key is changed;
  when there is none Prisma throws.
\<close>

definition updateTask :: "ident \<Rightarrow> (task \<Rightarrow> task) \<Rightarrow> world \<Rightarrow> error + world" where
  "updateTask i f w =
     (case findTask i w of
        None \<Rightarrow> Inl (RecordNotFound ''Record to update not found.'')
      | Some _ \<Rightarrow> Inr (w\<lparr>tasks := map (\<lambda>t. if taskId t = i then f t else t) (tasks w)\<rparr>))"

definition updateOutbox ::
  "ident \<Rightarrow> (outbox_message \<Rightarrow> outbox_message) \<Rightarrow> world \<Rightarrow> error + world" where
  "updateOutbox i f w =
     (case findOutbox i w of
        None \<Rightarrow> Inl (RecordNotFound ''Record to update not found.'')
      | Some _ \<Rightarrow> Inr (w\<lparr>outbox := map (\<lambda>m. if outboxId m = i then f m else m) (outbox w)\<rparr>))"

definition updateInbound ::
  "ident \<Rightarrow> (inbound_message \<Rightarrow> inbound_message) \<Rightarrow> world \<Rightarrow> error + world" where
  "updateInbound i f w =
     (case findInbound i w of
        None \<Rightarrow> Inl (RecordNotFound ''Record to update not found.'')
      | Some _ \<Rightarrow>
          Inr (w\<lparr>inbound_messages :=
                   map (\<lambda>m. if inboundId m = i then f m else m) (inbound_messages w)\<rparr>))"

text \<open>
  Modelled from the spec: what \<open>prisma.task.create\<close> does under the absent
  \<open>schema.prisma\<close>. The spec declares \<open>source_inbound_id\<close> unique (at most one task per
  inbound message), so a second task for the same inbound message is refused; the store
  gives the key and the columns the caller leaves out (no attempt yet, \<open>updated_at\<close> its
  own clock).
\<close>

definition createTask :: "env \<Rightarrow> task_data \<Rightarrow> world \<Rightarrow> error + task \<times> world" where
  "createTask e d w =
     (if list_ex (\<lambda>t. sourceInboundId t = sourceInboundId d) (tasks w)
      then Inl (UniqueConstraint ''Unique constraint failed on the fields: (`source_inbound_id`)'')
      else
        let row = \<lparr>t_userId = t_userId d, sourceInboundId = sourceInboundId d, dueAt = dueAt d,
                   actionType = actionType d, contactHint = contactHint d,
                   t_context = t_context d, t_status = t_status d,
                   taskId = uuid (next_uuid w), attemptCount = 0, lastAttemptAt = None,
                   t_updatedAt = dbNow e\<rparr>
        in Inr (row, w\<lparr>tasks := tasks w @ [row], next_uuid := Suc (next_uuid w)\<rparr>))"

text \<open>
  Modelled from the spec: the defaults of a new outbox row, declared in the absent
  \<open>schema.prisma\<close>. The spec gives \<open>attempts = 0\<close> and \<open>next_retry_at\<close> defaulting to the
  creation time.
\<close>

definition createOutbox :: "env \<Rightarrow> outbox_data \<Rightarrow> world \<Rightarrow> outbox_message \<times> world" where
  "createOutbox e d w =
     (let row = \<lparr>ob_taskId = ob_taskId d, ob_userId = ob_userId d, ob_channel = ob_channel d,
                 payload = payload d, ob_status = ob_status d,
                 outboxId = uuid (next_uuid w), attempts = 0, nextRetryAt = dbNow e,
                 ob_updatedAt = dbNow e\<rparr>
      in (row, w\<lparr>outbox := outbox w @ [row], next_uuid := Suc (next_uuid w)\<rparr>))"

text \<open>
  \<open>recordTaskEvent\<close> (services/task-events.ts): the event is appended; a failure to
  write it is caught and logged there, so nothing is ever thrown to the caller.
\<close>

definition recordTaskEvent ::
  "ident \<Rightarrow> ident \<Rightarrow> event_type \<Rightarrow> event_payload \<Rightarrow> world \<Rightarrow> world" where
  "recordTaskEvent tid uid ty p w =
     w\<lparr>task_events := task_events w @
          [\<lparr>ev_taskId = tid, ev_userId = uid, eventType = ty, ev_payload = p\<rparr>]\<rparr>"

text \<open>
  \<open>prisma.inboundMessage.create\<close>. The idempotency key is a unique column (the routes
  look rows up by it with \<open>findUnique\<close>), so a second row with the same key is refused.
\<close>

record inbound_data =
  n_userId :: ident
  n_channel :: string
  n_providerMessageId :: string
  n_idempotencyKey :: string
  n_rawTextRedacted :: string
  n_status :: inbound_status

definition createInbound :: "inbound_data \<Rightarrow> world \<Rightarrow> error + inbound_message \<times> world" where
  "createInbound d w =
     (if list_ex (\<lambda>m. idempotencyKey m = n_idempotencyKey d) (inbound_messages w)
      then Inl (UniqueConstraint ''Unique constraint failed on the fields: (`idempotency_key`)'')
      else
        let row = \<lparr>inboundId = uuid (next_uuid w), in_userId = n_userId d,
                   in_channel = n_channel d, providerMessageId = n_providerMessageId d,
                   idempotencyKey = n_idempotencyKey d,
                   rawTextRedacted = Some (n_rawTextRedacted d), in_status = n_status d\<rparr>
        in Inr (row, w\<lparr>inbound_messages := inbound_messages w @ [row],
                        next_uuid := Suc (next_uuid w)\<rparr>))"

text \<open>\<open>x || d\<close> on a nullable string.\<close>

definition or_default :: "string option \<Rightarrow> string \<Rightarrow> string" where
  "or_default x d = (if truthy x then the x else d)"

section \<open>PII redaction (shared/pii.ts)\<close>

text \<open>
  The three regular expressions are sequences of word boundaries and quantified character
  classes. A class is given by its members; \<open>Chars cs lo hi\<close> is the class repeated
  between \<open>lo\<close> and \<open>hi\<close> times (\<open>None\<close>: without upper bound), greedy as in JavaScript.
\<close>

datatype item = WordBoundary | Chars "char list" nat "nat option"

definition upper :: string where
  "upper = ''ABCDEFGHIJKLMNOPQRSTUVWXYZ''"

definition lower :: string where
  "lower = ''abcdefghijklmnopqrstuvwxyz''"

definition digits :: string where
  "digits = ''0123456789''"

text \<open>\<open>\w\<close>, and \<open>\b\<close>: exactly one of the two neighbours is a word character.\<close>

definition word_char :: "char \<Rightarrow> bool" where
  "word_char c = (c \<in> set (upper @ lower @ digits @ ''_''))"

definition at_boundary :: "char option \<Rightarrow> string \<Rightarrow> bool" where
  "at_boundary prev s =
     ((case prev of None \<Rightarrow> False | Some c \<Rightarrow> word_char c) \<noteq>
      (case s of [] \<Rightarrow> False | c # _ \<Rightarrow> word_char c))"

text \<open>The character before the position reached after reading \<open>xs\<close>.\<close>

fun after :: "char option \<Rightarrow> string \<Rightarrow> char option" where
  "after prev [] = prev"
| "after prev (c # cs) = after (Some c) cs"

text \<open>Backtracking over a greedy quantifier: the longest repetition first, down to \<open>lo\<close>.\<close>

fun countdown :: "(nat \<Rightarrow> nat option) \<Rightarrow> nat \<Rightarrow> nat \<Rightarrow> nat option" where
  "countdown f lo 0 = (if 0 < lo then None else f 0)"
| "countdown f lo (Suc k) =
     (if Suc k < lo then None
      else case f (Suc k) of Some r \<Rightarrow> Some r | None \<Rightarrow> countdown f lo k)"

text \<open>
  The length of the match of the items at the start of \<open>s\<close>, \<open>prev\<close> being the character
  before it, or \<open>None\<close> when there is no match there.
\<close>

fun match_items :: "item list \<Rightarrow> char option \<Rightarrow> string \<Rightarrow> nat option" where
  "match_items [] prev s = Some 0"
| "match_items (WordBoundary # items) prev s =
     (if at_boundary prev s then match_items items prev s else None)"
| "match_items (Chars cs lo hi # items) prev s =
     (let avail = length (takeWhile (\<lambda>c. c \<in> set cs) s);
          most = (case hi of None \<Rightarrow> avail | Some h \<Rightarrow> min h avail)
      in countdown
           (\<lambda>n. map_option (\<lambda>k. n + k) (match_items items (after prev (take n s)) (drop n s)))
           lo most)"

text \<open>
  \<open>text.replace(pattern, marker)\<close> with a global pattern: the matches are looked for from
  left to right in the text as it is, each search starting where the last match ended
  (one character further after an empty match); the text between the matches is copied.
\<close>

function replace_from :: "item list \<Rightarrow> string \<Rightarrow> char option \<Rightarrow> string \<Rightarrow> string" where
  "replace_from p r prev [] = (case match_items p prev [] of None \<Rightarrow> [] | Some _ \<Rightarrow> r)"
| "replace_from p r prev (c # cs) =
     (case match_items p prev (c # cs) of
        None \<Rightarrow> c # replace_from p r (Some c) cs
      | Some 0 \<Rightarrow> r @ c # replace_from p r (Some c) cs
      | Some (Suc n) \<Rightarrow> r @ replace_from p r (after (Some c) (take n cs)) (drop n cs))"
  by pat_completeness auto
termination
  by (relation "measure (\<lambda>(p, r, prev, s). length s)") auto

definition replace :: "item list \<Rightarrow> string \<Rightarrow> string \<Rightarrow> string" where
  "replace p r s = replace_from p r None s"

definition SSN_PATTERN :: "item list" where
  "SSN_PATTERN =
     [WordBoundary, Chars digits 3 (Some 3), Chars ''-'' 1 (Some 1), Chars digits 2 (Some 2),
      Chars ''-'' 1 (Some 1), Chars digits 4 (Some 4), WordBoundary]"

definition CREDIT_CARD_PATTERN :: "item list" where
  "CREDIT_CARD_PATTERN =
     [WordBoundary, Chars digits 4 (Some 4), Chars ''- '' 0 (Some 1), Chars digits 4 (Some 4),
      Chars ''- '' 0 (Some 1), Chars digits 4 (Some 4), Chars ''- '' 0 (Some 1),
      Chars digits 4 (Some 4), WordBoundary]"

definition EMAIL_IN_BODY_PATTERN :: "item list" where
  "EMAIL_IN_BODY_PATTERN =
     [WordBoundary, Chars (upper @ lower @ digits @ ''._%+-'') 1 None, Chars ''@'' 1 (Some 1),
      Chars (upper @ lower @ digits @ ''.-'') 1 None, Chars ''.'' 1 (Some 1),
      Chars (upper @ ''|'' @ lower) 2 None, WordBoundary]"

definition redactPii :: "string \<Rightarrow> string" where
  "redactPii text =
     replace EMAIL_IN_BODY_PATTERN ''[EMAIL_REDACTED]''
       (replace CREDIT_CARD_PATTERN ''[CC_REDACTED]''
          (replace SSN_PATTERN ''[SSN_REDACTED]'' text))"

text \<open>
  The match of a pattern in a text at position \<open>i\<close>, and a text in which the pattern
  matches at no position.
\<close>

definition matches_at :: "item list \<Rightarrow> string \<Rightarrow> nat \<Rightarrow> nat option" where
  "matches_at p s i = match_items p (after None (take i s)) (drop i s)"

definition match_free :: "item list \<Rightarrow> string \<Rightarrow> bool" where
  "match_free p s = list_all (\<lambda>i. matches_at p s i = None) [0..<Suc (length s)]"

text \<open>
  The matches a pass takes in a text, said on the positions of the text and apart from
  the replacing, for comparison with \<open>replace\<close>, as pairs of start and length: the search
  goes from left to right over the positions of the text; where the pattern matches, that
  match is taken and the search resumes where it ended (one position further after an
  empty match), so the matches taken do not overlap. \<open>matches_from p s k\<close> are those from
  position \<open>k\<close> on.
\<close>

function matches_from :: "item list \<Rightarrow> string \<Rightarrow> nat \<Rightarrow> (nat \<times> nat) list" where
  "matches_from p s k =
     (if length s < k then []
      else case matches_at p s k of
             None \<Rightarrow> matches_from p s (Suc k)
           | Some n \<Rightarrow> (k, n) # matches_from p s (if n = 0 then Suc k else k + n))"
  by pat_completeness auto
termination
  by (relation "measure (\<lambda>(p, s, k). Suc (length s) - k)") auto

declare matches_from.simps [simp del]

definition global_matches :: "item list \<Rightarrow> string \<Rightarrow> (nat \<times> nat) list" where
  "global_matches p s = matches_from p s 0"

text \<open>
  The text from position \<open>k\<close> on with the marker in place of each of the given stretches
  and every character outside them copied.
\<close>

fun substitute :: "string \<Rightarrow> string \<Rightarrow> nat \<Rightarrow> (nat \<times> nat) list \<Rightarrow> string" where
  "substitute r s k [] = drop k s"
| "substitute r s k ((i, n) # ms) = take (i - k) (drop k s) @ r @ substitute r s (i + n) ms"

section \<open>Outbox sender (workers/outbox.worker.ts)\<close>

definition computeNextRetry :: "instant \<Rightarrow> nat \<Rightarrow> instant" where
  "computeNextRetry dateNow n = dateNow + min (30000 * 2 ^ n) 600000"

text \<open>The projection of a claimed row that the claim statement returns.\<close>

record outbox_claim =
  c_outbox_id :: ident
  c_task_id :: "ident option"
  c_user_id :: ident
  c_channel :: string
  c_payload :: outbox_payload
  c_attempts :: nat

definition claim_of :: "outbox_message \<Rightarrow> outbox_claim" where
  "claim_of m = \<lparr>c_outbox_id = outboxId m, c_task_id = ob_taskId m, c_user_id = ob_userId m,
                 c_channel = ob_channel m, c_payload = payload m, c_attempts = attempts m\<rparr>"

definition outbox_ready :: "instant \<Rightarrow> outbox_message \<Rightarrow> bool" where
  "outbox_ready now m = (ob_status m = Queued \<and> nextRetryAt m \<le> now)"

text \<open>
  The claim statement: \<open>UPDATE outbox SET status = 'sending', updated_at = NOW() WHERE
  outbox_id IN (SELECT ... WHERE status = 'queued' AND next_retry_at <= now ORDER BY
  next_retry_at ASC LIMIT 20 FOR UPDATE SKIP LOCKED) RETURNING ...\<close>. One invocation runs
  alone here, so no row is locked by another.
\<close>

definition outbox_claim_ids :: "instant \<Rightarrow> world \<Rightarrow> ident list" where
  "outbox_claim_ids now w =
     map outboxId (take 20 (sort_key nextRetryAt (filter (outbox_ready now) (outbox w))))"

definition claimOutbox :: "env \<Rightarrow> world \<Rightarrow> outbox_claim list \<times> world" where
  "claimOutbox e w =
     (let ids = outbox_claim_ids (jsNow e) w;
          rows = map (\<lambda>m. if outboxId m \<in> set ids
                          then m\<lparr>ob_status := OutboxSending, ob_updatedAt := dbNow e\<rparr> else m)
                     (outbox w)
      in (map claim_of (filter (\<lambda>m. outboxId m \<in> set ids) rows), w\<lparr>outbox := rows\<rparr>))"

text \<open>The send call of the \<open>try\<close> block: none at all for a channel that is neither.\<close>

definition send_call :: "outbox_claim \<Rightarrow> api_call option" where
  "send_call msg =
     (if c_channel msg = ''email''
      then Some (SendEmail (p_to (c_payload msg))
                   (case p_subject (c_payload msg) of None \<Rightarrow> ''Follow-Up Concierge'' | Some s \<Rightarrow> s)
                   (p_body (c_payload msg)))
      else if c_channel msg = ''whatsapp''
      then Some (SendWhatsApp (p_to (c_payload msg)) (p_body (c_payload msg)))
      else None)"

text \<open>
  The \<open>try\<close> block of the loop body: the send, then the success path. The result is the
  error thrown, if any, with the world as it is at that moment.
\<close>

definition pollOutbox_try :: "env \<Rightarrow> outbox_claim \<Rightarrow> world \<Rightarrow> error option \<times> world" where
  "pollOutbox_try e msg w =
     (let (thrown, w1) =
            (case send_call msg of
               None \<Rightarrow> (None, w)
             | Some c \<Rightarrow> (api e c, w\<lparr>api_calls := api_calls w @ [c]\<rparr>))
      in case thrown of
           Some m \<Rightarrow> (Some (Error m), w1)
         | None \<Rightarrow>
            (case updateOutbox (c_outbox_id msg)
                    (\<lambda>m. m\<lparr>ob_status := Sent, attempts := c_attempts msg + 1\<rparr>) w1 of
               Inl err \<Rightarrow> (Some err, w1)
             | Inr w2 \<Rightarrow>
                (if truthy (c_task_id msg)
                 then (case updateTask (the (c_task_id msg)) (\<lambda>t. t\<lparr>t_status := Done\<rparr>) w2 of
                         Inl err \<Rightarrow> (Some err, w2)
                       | Inr w3 \<Rightarrow>
                          (None,
                           recordTaskEvent (the (c_task_id msg)) (c_user_id msg) EvDone NoPayload
                             (recordTaskEvent (the (c_task_id msg)) (c_user_id msg) EvSent
                                NoPayload w3)))
                 else (None, w2))))"

text \<open>The \<open>catch\<close> block: terminal failure at the maximum, a retry with backoff below it.\<close>

definition pollOutbox_catch ::
  "env \<Rightarrow> outbox_claim \<Rightarrow> error \<Rightarrow> world \<Rightarrow> error option \<times> world" where
  "pollOutbox_catch e msg err w =
     (let newAttempts = c_attempts msg + 1 in
      if int newAttempts \<ge> OUTBOX_MAX_ATTEMPTS e
      then (case updateOutbox (c_outbox_id msg)
                   (\<lambda>m. m\<lparr>ob_status := OutboxFailed, attempts := newAttempts\<rparr>) w of
              Inl err' \<Rightarrow> (Some err', w)
            | Inr w1 \<Rightarrow>
               (if truthy (c_task_id msg)
                then (case updateTask (the (c_task_id msg)) (\<lambda>t. t\<lparr>t_status := Failed\<rparr>) w1 of
                        Inl err' \<Rightarrow> (Some err', w1)
                      | Inr w2 \<Rightarrow>
                         (None,
                          recordTaskEvent (the (c_task_id msg)) (c_user_id msg) EvFailed
                            (Reason (message err)) w2))
                else (None, w1)))
      else (let nextRetry = computeNextRetry (dateNowAt e (c_outbox_id msg)) newAttempts in
            case updateOutbox (c_outbox_id msg)
                   (\<lambda>m. m\<lparr>ob_status := Queued, attempts := newAttempts,
                          nextRetryAt := nextRetry\<rparr>) w of
              Inl err' \<Rightarrow> (Some err', w)
            | Inr w1 \<Rightarrow> (None, w1)))"

text \<open>One iteration of \<open>for (const msg of messages)\<close>.\<close>

definition pollOutbox_step :: "env \<Rightarrow> outbox_claim \<Rightarrow> world \<Rightarrow> error option \<times> world" where
  "pollOutbox_step e msg w =
     (case pollOutbox_try e msg w of
        (None, w1) \<Rightarrow> (None, w1)
      | (Some err, w1) \<Rightarrow> pollOutbox_catch e msg err w1)"

text \<open>The loop: an error thrown out of the \<open>catch\<close> block ends the poll.\<close>

fun pollOutbox_loop :: "env \<Rightarrow> outbox_claim list \<Rightarrow> world \<Rightarrow> error option \<times> world" where
  "pollOutbox_loop e [] w = (None, w)"
| "pollOutbox_loop e (msg # msgs) w =
     (case pollOutbox_step e msg w of
        (None, w1) \<Rightarrow> pollOutbox_loop e msgs w1
      | (Some err, w1) \<Rightarrow> (Some err, w1))"

definition pollOutbox :: "env \<Rightarrow> world \<Rightarrow> error option \<times> world" where
  "pollOutbox e w =
     (case claimOutbox e w of
        (messages, w1) \<Rightarrow> if messages = [] then (None, w1) else pollOutbox_loop e messages w1)"


section \<open>Scheduler (workers/scheduler.worker.ts)\<close>

text \<open>\<open>status = 'pending' AND due_at <= now\<close>; a comparison with \<open>NULL\<close> is not true.\<close>

definition task_eligible :: "instant \<Rightarrow> task \<Rightarrow> bool" where
  "task_eligible now t =
     (t_status t = Pending \<and> (case dueAt t of None \<Rightarrow> False | Some d \<Rightarrow> d \<le> now))"

text \<open>
  The rows of the inner \<open>SELECT task_id ... ORDER BY due_at ASC LIMIT 100 FOR UPDATE SKIP
  LOCKED\<close>; one invocation runs alone here, so no row is locked by another.
\<close>

definition due_batch :: "instant \<Rightarrow> world \<Rightarrow> task list" where
  "due_batch now w =
     take 100 (sort_key (\<lambda>t. the (dueAt t)) (filter (task_eligible now) (tasks w)))"

definition due_claim_ids :: "instant \<Rightarrow> world \<Rightarrow> ident list" where
  "due_claim_ids now w = map taskId (due_batch now w)"

text \<open>
  The whole statement: \<open>UPDATE tasks SET status = 'due', updated_at = NOW() WHERE task_id
  IN (...) RETURNING task_id, user_id\<close>. The \<open>ORDER BY\<close> belongs to the inner \<open>SELECT\<close>
  only: it decides which rows are claimed, not the order in which they are returned.
\<close>

definition claimDueTasks :: "env \<Rightarrow> world \<Rightarrow> (ident \<times> ident) list \<times> world" where
  "claimDueTasks e w =
     (let ids = due_claim_ids (jsNow e) w;
          rows = map (\<lambda>t. if taskId t \<in> set ids
                          then t\<lparr>t_status := Due, t_updatedAt := dbNow e\<rparr> else t)
                     (tasks w)
      in (map (\<lambda>t. (taskId t, t_userId t))
            (sort_key (\<lambda>t. returningRank e (taskId t)) (filter (\<lambda>t. taskId t \<in> set ids) rows)),
          w\<lparr>tasks := rows\<rparr>))"

text \<open>The body of \<open>for (const row of dueTasks)\<close>: the \<open>due\<close> event, then the execute job.\<close>

definition enqueueExecute :: "ident \<times> ident \<Rightarrow> world \<Rightarrow> world" where
  "enqueueExecute row w =
     (let w1 = recordTaskEvent (fst row) (snd row) EvDue NoPayload w
      in w1\<lparr>execute_queue := execute_queue w1 @ [(''exec:'' @ fst row, fst row)]\<rparr>)"

definition tick :: "env \<Rightarrow> world \<Rightarrow> world" where
  "tick e w =
     (case claimDueTasks e w of
        (dueTasks, w1) \<Rightarrow> if dueTasks = [] then w1 else fold enqueueExecute dueTasks w1)"

section \<open>Executor (workers/executor.worker.ts)\<close>

text \<open>Subject and body of a plain reminder.\<close>

definition reminder_subject :: "task \<Rightarrow> string" where
  "reminder_subject t = ''Reminder: Follow up with '' @ or_default (contactHint t) ''your contact''"

definition with_contact :: "task \<Rightarrow> string" where
  "with_contact t = (if truthy (contactHint t) then '' with '' @ the (contactHint t) else [])"

definition reminder_body :: "user \<Rightarrow> task \<Rightarrow> string" where
  "reminder_body u t =
     ''Hi '' @ displayName u @ '', this is your reminder to follow up'' @ with_contact t @
     (if truthy (t_context t) then '' about '' @ the (t_context t) else []) @ ''.''"

text \<open>The envelope around a draft for \<open>remind_and_draft\<close>.\<close>

definition draft_envelope :: "user \<Rightarrow> task \<Rightarrow> draft_result \<Rightarrow> string" where
  "draft_envelope u t d =
     ''Hi '' @ displayName u @ '', it's time to follow up'' @ with_contact t @
     ''. Here's a draft you can use:'' @ [CHR 0x0A, CHR 0x0A] @ ''---'' @ [CHR 0x0A] @
     ''Subject: '' @ d_subject d @ [CHR 0x0A, CHR 0x0A] @ d_body d @ [CHR 0x0A] @ ''---'' @
     [CHR 0x0A, CHR 0x0A] @ ''Feel free to edit and send!''"

text \<open>Steps 4 and 5: the outbox row, then the task to \<open>sending\<close>.\<close>

definition processExecute_finish ::
  "env \<Rightarrow> task \<Rightarrow> string \<Rightarrow> string option \<Rightarrow> string \<Rightarrow> string \<Rightarrow> world \<Rightarrow> error option \<times> world"
  where
  "processExecute_finish e t channel recipient subject body w =
     (let (row, w1) = createOutbox e
            \<lparr>ob_taskId = Some (taskId t), ob_userId = t_userId t, ob_channel = channel,
             payload = \<lparr>p_to = recipient, p_subject = Some subject, p_body = body\<rparr>,
             ob_status = Queued\<rparr> w
      in case updateTask (taskId t) (\<lambda>x. x\<lparr>t_status := Sending\<rparr>) w1 of
           Inl err \<Rightarrow> (Some err, w1)
         | Inr w2 \<Rightarrow> (None, recordTaskEvent (taskId t) (t_userId t) EvSending NoPayload w2))"

text \<open>
  \<open>processExecute\<close>; the job carries the task key. The result is the error thrown, if any,
  with the world as it is at that moment. Steps 1 to 3 and the building of subject and
  body.
\<close>

definition processExecute :: "env \<Rightarrow> ident \<Rightarrow> world \<Rightarrow> error option \<times> world" where
  "processExecute e tid w =
     (case findTask tid w of
        None \<Rightarrow> (None, w)
      | Some t \<Rightarrow>
         if t_status t \<noteq> Due then (None, w)
         else
          (case updateTask tid
                  (\<lambda>x. x\<lparr>t_status := Executing, lastAttemptAt := Some (jsNow e),
                         attemptCount := attemptCount x + 1\<rparr>) w of
             Inl err \<Rightarrow> (Some err, w)
           | Inr w1 \<Rightarrow>
              (let w2 = recordTaskEvent tid (t_userId t) EvExecuting NoPayload w1 in
               case findUser (t_userId t) w of
                 None \<Rightarrow> (Some (TypeError ''Cannot read properties of null''), w2)
               | Some u \<Rightarrow>
                  (let prefs = preferences u;
                       tn = (case prefs of None \<Rightarrow> ''friendly'' | Some p \<Rightarrow> tone p);
                       fallback = (case prefs of None \<Rightarrow> ''email'' | Some p \<Rightarrow> fallbackChannel p);
                       channel = (case findInbound (sourceInboundId t) w2 of
                                    None \<Rightarrow> fallback | Some i \<Rightarrow> in_channel i);
                       recipient = (if channel = ''email'' then primaryEmail u
                                    else whatsappNumber u)
                   in if actionType t = ''remind''
                      then processExecute_finish e t channel recipient
                             (reminder_subject t) (reminder_body u t) w2
                      else
                       (case draftFollowUp e (or_default (contactHint t) ''the contact'')
                               (or_default (t_context t) ''a follow-up'') tn of
                          Inl err \<Rightarrow> (Some err, w2)
                        | Inr d \<Rightarrow>
                           processExecute_finish e t channel recipient (d_subject d)
                             (if actionType t = ''send'' then d_body d
                              else draft_envelope u t d)
                             (recordTaskEvent tid (t_userId t) EvDraftGenerated (Draft d)
                                w2))))))"

section \<open>Ingest worker (workers/ingest.worker.ts)\<close>

text \<open>Step 6, reached from both branches: the inbound row to \<open>processed\<close>.\<close>

definition markProcessed :: "ident \<Rightarrow> world \<Rightarrow> error option \<times> world" where
  "markProcessed i w =
     (case updateInbound i (\<lambda>m. m\<lparr>in_status := Processed\<rparr>) w of
        Inl err \<Rightarrow> (Some err, w)
      | Inr w1 \<Rightarrow> (None, w1))"

text \<open>The branch \<open>extraction.needs_clarification\<close>.\<close>

definition processIngest_clarify ::
  "env \<Rightarrow> ingest_job \<Rightarrow> string \<Rightarrow> string \<Rightarrow> string option \<Rightarrow> extraction_result \<Rightarrow> world \<Rightarrow>
     error option \<times> world" where
  "processIngest_clarify e job defAct channel recipient x w =
     (case createTask e
             \<lparr>t_userId = j_userId job, sourceInboundId = j_inboundId job, dueAt = None,
              actionType = (if action_type x = [] then defAct else action_type x),
              contactHint = or_null (contact_hint x), t_context = or_null (ex_context x),
              t_status = NeedsClarification\<rparr> w of
        Inl err \<Rightarrow> (Some err, w)
      | Inr (t, w1) \<Rightarrow>
         (let w2 = recordTaskEvent (taskId t) (j_userId job) EvCreated (Source ''ingest'') w1;
              w3 = recordTaskEvent (taskId t) (j_userId job) EvClarificationSent
                     (Question (clarifying_question x)) w2;
              (row, w4) = createOutbox e
                 \<lparr>ob_taskId = Some (taskId t), ob_userId = j_userId job, ob_channel = channel,
                  payload = \<lparr>p_to = recipient,
                             p_subject = Some ''Quick question about your follow-up'',
                             p_body = clarifying_question x\<rparr>,
                  ob_status = Queued\<rparr> w3
          in markProcessed (j_inboundId job) w4))"

definition actionLabel :: "extraction_result \<Rightarrow> string" where
  "actionLabel x =
     (if action_type x = ''remind'' then ''I'll remind you''
      else if action_type x = ''send'' then ''I'll send it for you''
      else ''I'll remind you and prepare a draft'')"

text \<open>
  The \<open>else\<close> branch. \<open>dueAt\<close> is \<open>null\<close> when \<open>due_at_iso\<close> is \<open>null\<close> or empty, and
  \<open>new Date(due_at_iso)\<close> otherwise; Prisma refuses an invalid date.
\<close>

definition processIngest_schedule ::
  "env \<Rightarrow> ingest_job \<Rightarrow> string \<Rightarrow> string \<Rightarrow> string \<Rightarrow> string option \<Rightarrow> extraction_result \<Rightarrow>
     world \<Rightarrow> error option \<times> world" where
  "processIngest_schedule e job tz defAct channel recipient x w =
     (if truthy (due_at_iso x) \<and> parseDate e (the (due_at_iso x)) = None
      then (Some (ValidationFailed ''Provided Date object is invalid''), w)
      else
       (let due = (if truthy (due_at_iso x) then parseDate e (the (due_at_iso x)) else None) in
        case createTask e
               \<lparr>t_userId = j_userId job, sourceInboundId = j_inboundId job, dueAt = due,
                actionType = (if action_type x = [] then defAct else action_type x),
                contactHint = or_null (contact_hint x), t_context = or_null (ex_context x),
                t_status = Pending\<rparr> w of
          Inl err \<Rightarrow> (Some err, w)
        | Inr (t, w1) \<Rightarrow>
           (let w2 = recordTaskEvent (taskId t) (j_userId job) EvCreated (Source ''ingest'') w1;
                w3 = recordTaskEvent (taskId t) (j_userId job) EvScheduled
                       (ScheduledDueAt (map_option (toISOString e) due)) w2;
                friendlyDate = (case due of None \<Rightarrow> ''the scheduled time''
                                | Some d \<Rightarrow> toLocaleString e d tz);
                confirmBody = ''Got it! '' @ actionLabel x @ '' on '' @ friendlyDate @
                              '' about '' @
                              (if contact_hint x = [] then ''your follow-up'' else contact_hint x) @
                              ''.'';
                (row, w4) = createOutbox e
                   \<lparr>ob_taskId = Some (taskId t), ob_userId = j_userId job,
                    ob_channel = channel,
                    payload = \<lparr>p_to = recipient, p_subject = Some ''Follow-up scheduled'',
                               p_body = confirmBody\<rparr>,
                    ob_status = Queued\<rparr> w3
            in markProcessed (j_inboundId job) w4)))"

text \<open>Steps 3 and 4: the text is redacted and handed to the extractor.\<close>

definition processIngest_extract ::
  "env \<Rightarrow> inbound_message \<Rightarrow> user \<Rightarrow> error + extraction_result" where
  "processIngest_extract e inbound u =
     extractFollowUp e
       (redactPii (case rawTextRedacted inbound of None \<Rightarrow> [] | Some t \<Rightarrow> t))
       (case preferences u of None \<Rightarrow> ''America/New_York'' | Some p \<Rightarrow> timezone p)
       (toISOString e (jsNow e))"

text \<open>
  \<open>processIngest\<close>. The result is the error thrown, if any (the job then fails and the
  queue retries it), with the world as it is at that moment.
\<close>

definition processIngest :: "env \<Rightarrow> ingest_job \<Rightarrow> world \<Rightarrow> error option \<times> world" where
  "processIngest e job w =
     (case findInbound (j_inboundId job) w of
        None \<Rightarrow> (None, w)
      | Some inbound \<Rightarrow>
         (case findUser (j_userId job) w of
            None \<Rightarrow> (None, w)
          | Some u \<Rightarrow>
             (let prefs = preferences u;
                  tz = (case prefs of None \<Rightarrow> ''America/New_York'' | Some p \<Rightarrow> timezone p);
                  defAct = (case prefs of None \<Rightarrow> ''remind_and_draft''
                            | Some p \<Rightarrow> defaultAction p)
              in case processIngest_extract e inbound u of
                   Inl err \<Rightarrow> (Some err, w)
                 | Inr x \<Rightarrow>
                    (let channel = in_channel inbound;
                         recipient = (if channel = ''email'' then primaryEmail u
                                      else whatsappNumber u)
                     in if needs_clarification x
                        then processIngest_clarify e job defAct channel recipient x w
                        else processIngest_schedule e job tz defAct channel recipient x w))))"

section \<open>Ingress: the e-mail webhook (ingress/routes/email.ts)\<close>

record email_payload =
  messageId :: string
  e_from :: string
  e_to :: string
  e_subject :: string
  textBody :: string
  e_timestamp :: string

text \<open>
  A request: the \<open>x-webhook-signature\<close> header, the body as \<open>JSON.stringify\<close> gives it, and
  the body as an object with the six string fields (\<open>None\<close> when it is not one).
\<close>

record email_request =
  signature :: "string option"
  rawBody :: string
  body :: "email_payload option"

datatype reply =
  Accepted ident
  | Duplicate
  | Ignored string
  | InvalidPayload
  | ErrorReply string string

type_synonym response = "nat \<times> reply"

text \<open>validators/email.ts.\<close>

definition validateEmailWebhook :: "env \<Rightarrow> email_request \<Rightarrow> error option" where
  "validateEmailWebhook e req =
     (if EMAIL_WEBHOOK_SECRET e = [] then None
      else case signature req of
             None \<Rightarrow> Some (UnauthorizedError ''Missing X-Webhook-Signature header'')
           | Some s \<Rightarrow>
              if s \<noteq> hmacSha256Hex e (EMAIL_WEBHOOK_SECRET e) (rawBody req)
              then Some (UnauthorizedError ''Invalid webhook signature'')
              else None)"

text \<open>\<open>emailBodySchema.safeParse\<close>; the e-mail check of zod is taken from outside.\<close>

definition emailBodySchema :: "env \<Rightarrow> email_payload option \<Rightarrow> email_payload option" where
  "emailBodySchema e b =
     (case b of
        None \<Rightarrow> None
      | Some p \<Rightarrow> if messageId p \<noteq> [] \<and> isEmail e (e_from p) \<and> textBody p \<noteq> [] then Some p
                  else None)"

text \<open>The global error handler of the ingress server (ingress/server.ts).\<close>

fun errorHandler :: "error \<Rightarrow> response" where
  "errorHandler (UnauthorizedError m) = (401, ErrorReply ''UNAUTHORIZED'' m)"
| "errorHandler err = (500, ErrorReply ''INTERNAL_ERROR'' ''Internal server error'')"

text \<open>
  The handler awaits the store several times; another request can run between two
  awaits. Steps 1 to 5a, up to the look-up of an existing row, end either with a response
  or with the user and the key to insert under.
\<close>

datatype lookup = Respond response | Insert user email_payload string

definition emailRoutes_lookup :: "env \<Rightarrow> email_request \<Rightarrow> world \<Rightarrow> lookup" where
  "emailRoutes_lookup e req w =
     (case validateEmailWebhook e req of
        Some err \<Rightarrow> Respond (errorHandler err)
      | None \<Rightarrow>
         (case emailBodySchema e (body req) of
            None \<Rightarrow> Respond (400, InvalidPayload)
          | Some p \<Rightarrow>
             (case findUserByEmail (e_from p) w of
                None \<Rightarrow> Respond (200, Ignored ''unknown_sender'')
              | Some u \<Rightarrow>
                 (let idempotencyKey = userId u @ '':'' @ messageId p in
                  case findInboundByKey idempotencyKey w of
                    Some _ \<Rightarrow> Respond (200, Duplicate)
                  | None \<Rightarrow> Insert u p idempotencyKey))))"

text \<open>Steps 5b and 6: the insert, the ingest job, the response.\<close>

definition emailRoutes_insert :: "user \<Rightarrow> email_payload \<Rightarrow> string \<Rightarrow> world \<Rightarrow> response \<times> world" where
  "emailRoutes_insert u p key w =
     (case createInbound
             \<lparr>n_userId = userId u, n_channel = ''email'', n_providerMessageId = messageId p,
              n_idempotencyKey = key,
              n_rawTextRedacted = e_subject p @ [CHR 0x0A] @ textBody p,
              n_status = Received\<rparr> w of
        Inl err \<Rightarrow> (errorHandler err, w)
      | Inr (inbound, w1) \<Rightarrow>
         ((200, Accepted (inboundId inbound)),
          w1\<lparr>ingest_queue := ingest_queue w1 @
                [(key, \<lparr>j_inboundId = inboundId inbound, j_userId = userId u\<rparr>)]\<rparr>))"

text \<open>One request handled with no other request in between.\<close>

definition emailRoutes :: "env \<Rightarrow> email_request \<Rightarrow> world \<Rightarrow> response \<times> world" where
  "emailRoutes e req w =
     (case emailRoutes_lookup e req w of
        Respond r \<Rightarrow> (r, w)
      | Insert u p key \<Rightarrow> emailRoutes_insert u p key w)"

section \<open>The pipeline\<close>

text \<open>
  The five processes act on the one store. A run of the pipeline is a sequence of their
  invocations: a webhook request, an ingest job, a scheduler tick, an execute job, an
  outbox poll, each with what it reads from outside.
\<close>

datatype op =
  Webhook env email_request
  | Ingest env ingest_job
  | Tick env
  | Execute env ident
  | Poll env

fun run_op :: "op \<Rightarrow> world \<Rightarrow> world" where
  "run_op (Webhook e req) w = snd (emailRoutes e req w)"
| "run_op (Ingest e job) w = snd (processIngest e job w)"
| "run_op (Tick e) w = tick e w"
| "run_op (Execute e tid) w = snd (processExecute e tid w)"
| "run_op (Poll e) w = snd (pollOutbox e w)"

fun pipeline :: "op list \<Rightarrow> world \<Rightarrow> world" where
  "pipeline [] w = w"
| "pipeline (x # xs) w = pipeline xs (run_op x w)"

text \<open>The half of the task invariant that every process keeps.\<close>

definition clar_ok :: "task \<Rightarrow> bool" where
  "clar_ok t = (t_status t \<noteq> NeedsClarification \<or> dueAt t = None)"


text \<open>
  What the idempotence of the ingest worker rests on: the inbound message each task comes
  from, and the inbound rows.
\<close>

definition anchors :: "world \<Rightarrow> ident list \<times> inbound_message list" where
  "anchors w = (map sourceInboundId (tasks w), inbound_messages w)"

text \<open>
  Every inbound row that is \<open>processed\<close> has a task. The ingest worker is the only writer
  of that status, and it writes it after it has created the task; a store in which no
  inbound row is \<open>processed\<close> yet is of this kind.
\<close>

definition anchored :: "world \<Rightarrow> bool" where
  "anchored w =
     list_all (\<lambda>m. in_status m = Processed \<longrightarrow>
                    list_ex (\<lambda>t. sourceInboundId t = inboundId m) (tasks w))
       (inbound_messages w)"
section \<open>Sample worlds\<close>

text \<open>
  A configuration with the default limit of five attempts in which the e-mail service
  accepts every message and the WhatsApp service rejects every message, and a store with
  one task in \<open>sending\<close> and its queued outbox row.
\<close>

definition demo_env :: env where
  "demo_env = \<lparr>OUTBOX_MAX_ATTEMPTS = 5, EMAIL_WEBHOOK_SECRET = [], returningRank = (\<lambda>_. 0),
           jsNow = 1000, dbNow = 1001, dateNowAt = (\<lambda>_. 1002),
           api = (\<lambda>c. case c of SendEmail _ _ _ \<Rightarrow> None
                        | SendWhatsApp _ _ \<Rightarrow> Some ''WhatsApp API error''),
           extractFollowUp = (\<lambda>_ _ _. Inl (Error ''overloaded'')),
           draftFollowUp = (\<lambda>_ _ _. Inl (Error ''overloaded'')),
           toISOString = (\<lambda>_. ''2025-01-01T10:00:00.000Z''), parseDate = (\<lambda>_. None),
           toLocaleString = (\<lambda>_ _. ''Wednesday, January 1 at 10:00 AM''),
           hmacSha256Hex = (\<lambda>_ _. []), isEmail = (\<lambda>_. True)\<rparr>"

definition queued_row :: outbox_message where
  "queued_row = \<lparr>ob_taskId = Some ''t1'', ob_userId = ''u1'', ob_channel = ''whatsapp'',
          payload = \<lparr>p_to = Some ''15551234567'', p_subject = None, p_body = ''hi''\<rparr>,
          ob_status = Queued, outboxId = ''o1'', attempts = 0, nextRetryAt = 900,
          ob_updatedAt = 900\<rparr>"

definition demo_task :: task where
  "demo_task = \<lparr>t_userId = ''u1'', sourceInboundId = ''i1'', dueAt = Some 500,
         actionType = ''remind'', contactHint = None, t_context = None, t_status = Sending,
         taskId = ''t1'', attemptCount = 1, lastAttemptAt = Some 600, t_updatedAt = 600\<rparr>"

definition demo_world :: world where
  "demo_world = \<lparr>users = [], inbound_messages = [], tasks = [demo_task], outbox = [queued_row], task_events = [],
         ingest_queue = [], execute_queue = [], api_calls = [], next_uuid = 0\<rparr>"





text \<open>
  The four tasks of the scheduler scenario: three pending tasks due at 09:00, 09:30 and
  10:00 and one due at 11:00, at the tick of 10:00 (instants in minutes of the day here),
  under a plan that returns the claimed rows in the order task-3, task-2, task-1. And a
  store with 101 pending tasks, all due.
\<close>

definition pending_task :: "ident \<Rightarrow> ident \<Rightarrow> instant \<Rightarrow> task" where
  "pending_task i u d =
     \<lparr>t_userId = u, sourceInboundId = ''in-'' @ i, dueAt = Some d, actionType = ''remind'',
      contactHint = None, t_context = None, t_status = Pending, taskId = i,
      attemptCount = 0, lastAttemptAt = None, t_updatedAt = 0\<rparr>"

definition sched_env :: env where
  "sched_env =
     demo_env\<lparr>jsNow := 600, dbNow := 601,
               returningRank := (\<lambda>i. if i = ''task-3'' then 0 else if i = ''task-2'' then 1 else 2)\<rparr>"

definition sched_world :: world where
  "sched_world =
     demo_world\<lparr>tasks := [pending_task ''task-3'' ''user-1'' 600,
                          pending_task ''task-4'' ''user-3'' 660,
                          pending_task ''task-1'' ''user-1'' 540,
                          pending_task ''task-2'' ''user-2'' 570],
                outbox := []\<rparr>"

definition crowded_world :: world where
  "crowded_world =
     demo_world\<lparr>tasks := map (\<lambda>n. pending_task (uuid n) ''user-1'' (int n)) [0..<101],
                outbox := []\<rparr>"

text \<open>
  A user, her e-mail of a first webhook, and extractors that answer with a dated result,
  with a result that needs no clarification and has no date, and with a question.
\<close>

definition alice :: user where
  "alice = \<lparr>userId = ''u1'', primaryEmail = Some ''alice@example.com'',
            whatsappNumber = Some ''15551234567'', displayName = ''Alice'',
            preferences = Some \<lparr>timezone = ''America/New_York'', tone = ''friendly'',
                                defaultAction = ''remind_and_draft'',
                                fallbackChannel = ''email''\<rparr>\<rparr>"

definition first_inbound :: inbound_message where
  "first_inbound =
     \<lparr>inboundId = ''i1'', in_userId = ''u1'', in_channel = ''email'',
      providerMessageId = ''msg-1'', idempotencyKey = ''u1:msg-1'',
      rawTextRedacted = Some ''Follow up with Dr. Smith next Friday'', in_status = Received\<rparr>"

definition ingest_world :: world where
  "ingest_world =
     \<lparr>users = [alice], inbound_messages = [first_inbound], tasks = [], outbox = [],
      task_events = [], ingest_queue = [], execute_queue = [], api_calls = [], next_uuid = 0\<rparr>"

definition first_job :: ingest_job where
  "first_job = \<lparr>j_inboundId = ''i1'', j_userId = ''u1''\<rparr>"

definition dated_extraction :: extraction_result where
  "dated_extraction =
     \<lparr>needs_clarification = False, clarifying_question = [],
      due_at_iso = Some ''2025-01-17T09:00:00-05:00'', action_type = ''remind'',
      contact_hint = ''Dr. Smith'', ex_context = ''test results''\<rparr>"

definition dated_env :: env where
  "dated_env = demo_env\<lparr>extractFollowUp := (\<lambda>_ _ _. Inr dated_extraction),
                         parseDate := (\<lambda>_. Some 2000)\<rparr>"

definition undated_env :: env where
  "undated_env =
     demo_env\<lparr>extractFollowUp := (\<lambda>_ _ _. Inr (dated_extraction\<lparr>due_at_iso := None\<rparr>))\<rparr>"

definition asking_env :: env where
  "asking_env =
     demo_env\<lparr>extractFollowUp :=
        (\<lambda>_ _ _. Inr (dated_extraction\<lparr>needs_clarification := True,
                                        clarifying_question := ''Which day?'',
                                        due_at_iso := None\<rparr>))\<rparr>"

text \<open>The first webhook of the scenario, to a store that knows the sender.\<close>

definition first_payload :: email_payload where
  "first_payload =
     \<lparr>messageId = ''msg-1'', e_from = ''alice@example.com'', e_to = ''concierge@example.com'',
      e_subject = ''Follow up'', textBody = ''Follow up with Dr. Smith next Friday'',
      e_timestamp = ''2025-01-15T10:00:00Z''\<rparr>"

definition first_request :: email_request where
  "first_request = \<lparr>signature = None, rawBody = ''{}'', body = Some first_payload\<rparr>"

definition webhook_world :: world where
  "webhook_world = ingest_world\<lparr>inbound_messages := []\<rparr>"

section \<open>Properties of the redaction\<close>

lemma after_append: "after prev (xs @ ys) = after (after prev xs) ys"
  by (induction xs arbitrary: prev) simp_all

lemma copy_when_no_match:
  "(\<forall>i\<le>length s. match_items p (after prev (take i s)) (drop i s) = None) \<Longrightarrow>
     replace_from p r prev s = s"
proof (induction s arbitrary: prev)
  case Nil
  then show ?case by simp
next
  case (Cons c cs)
  from Cons.prems have here: "match_items p prev (c # cs) = None" by force
  have "\<forall>i\<le>length cs. match_items p (after (Some c) (take i cs)) (drop i cs) = None"
  proof (intro allI impI)
    fix i assume "i \<le> length cs"
    then have "Suc i \<le> length (c # cs)" by simp
    with Cons.prems
    have "match_items p (after prev (take (Suc i) (c # cs))) (drop (Suc i) (c # cs)) = None"
      by blast
    then show "match_items p (after (Some c) (take i cs)) (drop i cs) = None" by simp
  qed
  then have "replace_from p r (Some c) cs = cs" by (rule Cons.IH)
  with here show ?case by simp
qed

lemma match_free_replace: "match_free p s \<Longrightarrow> replace p r s = s"
proof -
  assume "match_free p s"
  then have "\<forall>i\<le>length s. match_items p (after None (take i s)) (drop i s) = None"
    by (auto simp: match_free_def matches_at_def list_all_iff less_Suc_eq_le)
  then show ?thesis unfolding replace_def by (rule copy_when_no_match)
qed

text \<open>A match never reaches beyond the end of the text.\<close>

lemma countdown_Some: "countdown f lo k = Some r \<Longrightarrow> \<exists>j\<le>k. f j = Some r"
proof (induction k)
  case 0
  then show ?case by (auto split: if_splits)
next
  case (Suc k)
  show ?case
  proof (cases "f (Suc k)")
    case None
    with Suc.prems have "countdown f lo k = Some r" by (auto split: if_splits)
    then obtain j where "j \<le> k" "f j = Some r" using Suc.IH by blast
    then show ?thesis by (meson le_SucI)
  next
    case (Some a)
    with Suc.prems have "f (Suc k) = Some r" by (auto split: if_splits)
    then show ?thesis by blast
  qed
qed

lemma match_items_le: "match_items p prev s = Some n \<Longrightarrow> n \<le> length s"
proof (induction p arbitrary: prev s n)
  case Nil
  then show ?case by simp
next
  case (Cons it p)
  show ?case
  proof (cases it)
    case WordBoundary
    with Cons.prems have "match_items p prev s = Some n" by (auto split: if_splits)
    then show ?thesis by (rule Cons.IH)
  next
    case (Chars cs lo hi)
    let ?avail = "length (takeWhile (\<lambda>c. c \<in> set cs) s)"
    let ?most = "case hi of None \<Rightarrow> ?avail | Some h \<Rightarrow> min h ?avail"
    let ?f = "\<lambda>n. map_option (\<lambda>k. n + k) (match_items p (after prev (take n s)) (drop n s))"
    from Cons.prems Chars have "countdown ?f lo ?most = Some n" by (simp add: Let_def)
    then obtain j where j: "j \<le> ?most" "?f j = Some n" using countdown_Some by blast
    then obtain k where k: "match_items p (after prev (take j s)) (drop j s) = Some k" "n = j + k"
      by auto
    have "k \<le> length (drop j s)" using k(1) by (rule Cons.IH)
    moreover have "?most \<le> ?avail" by (cases hi) simp_all
    moreover have "?avail \<le> length s" by (rule length_takeWhile_le)
    ultimately show ?thesis using j(1) k(2) by simp
  qed
qed

text \<open>The matches taken: each is the match at its start, and they lie behind one another.\<close>

lemma matches_from_bounds:
  "(i, n) \<in> set (matches_from p s k) \<Longrightarrow>
     k \<le> i \<and> i \<le> length s \<and> matches_at p s i = Some n"
proof (induction p s k rule: matches_from.induct)
  case (1 p s k)
  show ?case
  proof (cases "length s < k")
    case True
    with "1.prems" show ?thesis by (simp add: matches_from.simps [of p s k])
  next
    case False
    show ?thesis
    proof (cases "matches_at p s k")
      case None
      with False "1.prems" have "(i, n) \<in> set (matches_from p s (Suc k))"
        by (simp add: matches_from.simps [of p s k])
      from "1.IH"(1) [OF False None this] show ?thesis by simp
    next
      case (Some m)
      with False "1.prems"
      have "(i, n) = (k, m) \<or> (i, n) \<in> set (matches_from p s (if m = 0 then Suc k else k + m))"
        by (simp add: matches_from.simps [of p s k])
      then show ?thesis
      proof
        assume "(i, n) = (k, m)"
        then show ?thesis using False Some by simp
      next
        assume "(i, n) \<in> set (matches_from p s (if m = 0 then Suc k else k + m))"
        from "1.IH"(2) [OF False Some this] show ?thesis by (auto split: if_splits)
      qed
    qed
  qed
qed

lemma matches_from_ordered:
  "sorted_wrt (\<lambda>a b. fst a + snd a \<le> fst b \<and> fst a < fst b) (matches_from p s k)"
proof (induction p s k rule: matches_from.induct)
  case (1 p s k)
  show ?case
  proof (cases "length s < k")
    case True
    then show ?thesis by (simp add: matches_from.simps [of p s k])
  next
    case False
    show ?thesis
    proof (cases "matches_at p s k")
      case None
      with False "1.IH"(1) show ?thesis by (simp add: matches_from.simps [of p s k])
    next
      case (Some m)
      let ?k' = "if m = 0 then Suc k else k + m"
      have "\<forall>b\<in>set (matches_from p s ?k'). k + m \<le> fst b \<and> k < fst b"
      proof
        fix b assume "b \<in> set (matches_from p s ?k')"
        then have "?k' \<le> fst b" using matches_from_bounds [of "fst b" "snd b" p s ?k'] by simp
        then show "k + m \<le> fst b \<and> k < fst b" by (auto split: if_splits)
      qed
      with False Some "1.IH"(2) show ?thesis by (simp add: matches_from.simps [of p s k])
    qed
  qed
qed

text \<open>
  Leftmost first: a position at which the pattern matches is the start of a match taken
  or lies inside one.
\<close>

lemma matches_from_leftmost:
  "k \<le> j \<Longrightarrow> j \<le> length s \<Longrightarrow> matches_at p s j \<noteq> None \<Longrightarrow>
     \<exists>(i, n)\<in>set (matches_from p s k). i \<le> j \<and> (j = i \<or> j < i + n)"
proof (induction p s k rule: matches_from.induct)
  case (1 p s k)
  from "1.prems" have False: "\<not> length s < k" by simp
  show ?case
  proof (cases "matches_at p s k")
    case None
    with "1.prems" have "k \<noteq> j" by auto
    with "1.prems" have "Suc k \<le> j" by simp
    from "1.IH"(1) [OF False None this "1.prems"(2,3)] show ?thesis
      using False None by (simp add: matches_from.simps [of p s k])
  next
    case (Some m)
    let ?k' = "if m = 0 then Suc k else k + m"
    show ?thesis
    proof (cases "j = k \<or> j < k + m")
      case True
      then show ?thesis using False Some "1.prems"(1)
        by (auto simp: matches_from.simps [of p s k])
    next
      case no: False
      with "1.prems"(1) have "?k' \<le> j" by auto
      from "1.IH"(2) [OF False Some this "1.prems"(2,3)] show ?thesis
        using False Some by (auto simp: matches_from.simps [of p s k])
    qed
  qed
qed

text \<open>The replace of the source is the substitute of the matches taken.\<close>

lemma substitute_shift:
  "k < length s \<Longrightarrow> \<forall>b\<in>set ms. Suc k \<le> fst b \<Longrightarrow>
     substitute r s k ms = s ! k # substitute r s (Suc k) ms"
proof (cases ms)
  case Nil
  assume "k < length s"
  then show ?thesis using Nil by (simp add: Cons_nth_drop_Suc)
next
  case (Cons b ms')
  assume k: "k < length s" and ge: "\<forall>b\<in>set ms. Suc k \<le> fst b"
  obtain i n where b: "b = (i, n)" by (cases b)
  with ge Cons have "Suc k \<le> i" by simp
  then have "i - k = Suc (i - Suc k)" by simp
  then have "take (i - k) (drop k s) = s ! k # take (i - Suc k) (drop (Suc k) s)"
    using k by (simp add: Cons_nth_drop_Suc [symmetric])
  then show ?thesis using Cons b by simp
qed

lemma after_take_Suc:
  "k < length s \<Longrightarrow> after None (take (Suc k) s) = Some (s ! k)"
  by (simp add: take_Suc_conv_app_nth after_append)

lemma replace_from_substitute:
  "k \<le> length s \<Longrightarrow>
     replace_from p r (after None (take k s)) (drop k s) =
       substitute r s k (matches_from p s k)"
proof (induction p s k rule: matches_from.induct)
  case (1 p s k)
  from "1.prems" have False: "\<not> length s < k" by simp
  let ?prev = "after None (take k s)"
  have mf: "matches_from p s k =
     (case matches_at p s k of
        None \<Rightarrow> matches_from p s (Suc k)
      | Some n \<Rightarrow> (k, n) # matches_from p s (if n = 0 then Suc k else k + n))"
    using False by (subst matches_from.simps) simp
  show ?case
  proof (cases "k = length s")
    case True
    have beyond: "matches_from p s (Suc k) = []"
      using True by (subst matches_from.simps) simp
    have dr: "drop k s = []" and tk: "take k s = s" using True by simp_all
    show ?thesis
    proof (cases "matches_at p s k")
      case None
      then have "match_items p (after None s) [] = None" by (simp add: matches_at_def dr tk)
      then show ?thesis unfolding mf None option.case beyond dr tk using True by simp
    next
      case (Some m)
      then have "m \<le> length (drop k s)" unfolding matches_at_def by (rule match_items_le)
      then have "m = 0" using True by simp
      have "match_items p (after None s) [] = Some m"
        using Some by (simp add: matches_at_def dr tk)
      then show ?thesis unfolding mf Some option.case \<open>m = 0\<close> if_P [OF refl] beyond dr tk
        by (simp add: dr)
    qed
  next
    case inside: False
    with "1.prems" have k: "k < length s" by simp
    then have d: "drop k s = s ! k # drop (Suc k) s" by (simp add: Cons_nth_drop_Suc)
    have ge: "\<forall>b\<in>set (matches_from p s (Suc k)). Suc k \<le> fst b"
      using matches_from_bounds [of _ _ p s "Suc k"] by auto
    note shift = substitute_shift [OF k ge, of r]
    show ?thesis
    proof (cases "matches_at p s k")
      case None
      then have m: "match_items p ?prev (s ! k # drop (Suc k) s) = None"
        by (simp add: matches_at_def d)
      have "replace_from p r (after None (take (Suc k) s)) (drop (Suc k) s) =
              substitute r s (Suc k) (matches_from p s (Suc k))"
        using "1.IH"(1) [OF False None] k by simp
      then have "replace_from p r (Some (s ! k)) (drop (Suc k) s) =
              substitute r s (Suc k) (matches_from p s (Suc k))"
        by (simp add: after_take_Suc [OF k])
      then show ?thesis unfolding mf None option.case d shift using m by simp
    next
      case (Some m)
      then have mi: "match_items p ?prev (s ! k # drop (Suc k) s) = Some m"
        by (simp add: matches_at_def d)
      show ?thesis
      proof (cases m)
        case 0
        have "replace_from p r (after None (take (Suc k) s)) (drop (Suc k) s) =
                substitute r s (Suc k) (matches_from p s (Suc k))"
          using "1.IH"(2) [OF False Some] k 0 by simp
        then have ih: "replace_from p r (Some (s ! k)) (drop (Suc k) s) =
                substitute r s (Suc k) (matches_from p s (Suc k))"
          by (simp add: after_take_Suc [OF k])
        have "substitute r s k ((k, 0) # matches_from p s (Suc k)) =
                r @ s ! k # substitute r s (Suc k) (matches_from p s (Suc k))"
          using shift by simp
        then show ?thesis unfolding mf Some option.case 0 if_P [OF refl] d
          using mi ih 0 by simp
      next
        case (Suc n)
        have "m \<le> length (drop k s)" using Some unfolding matches_at_def by (rule match_items_le)
        then have le: "k + m \<le> length s" using k by simp
        have ih: "replace_from p r (after None (take (k + m) s)) (drop (k + m) s) =
                substitute r s (k + m) (matches_from p s (k + m))"
          using "1.IH"(2) [OF False Some] le Suc by simp
        have "take (k + m) s = take (Suc k) s @ take n (drop (Suc k) s)"
          using Suc by (simp add: take_add [symmetric])
        then have a: "after None (take (k + m) s) = after (Some (s ! k)) (take n (drop (Suc k) s))"
          by (simp add: after_append after_take_Suc [OF k])
        have b: "drop (k + m) s = drop n (drop (Suc k) s)" using Suc by (simp add: add.commute)
        have c: "matches_from p s k = (k, m) # matches_from p s (k + m)"
          unfolding mf Some option.case using Suc by simp
        have ih': "replace_from p r (after (Some (s ! k)) (take n (drop (Suc k) s)))
                     (drop n (drop (Suc k) s)) =
                   substitute r s (k + m) (matches_from p s (k + m))"
          using ih unfolding a b .
        show ?thesis unfolding c d using mi Suc ih' by simp
      qed
    qed
  qed
qed

lemma replace_substitute: "replace p r s = substitute r s 0 (global_matches p s)"
  using replace_from_substitute [of 0 s p r] by (simp add: replace_def global_matches_def)

text \<open>
  C9 (amended). \<open>redactPii\<close> is three passes, each on the result of the one before: SSN,
  then credit card, then e-mail. For every pattern, marker and text, a pass puts the
  marker in place of each match it takes and copies every character outside them. The
  matches it takes are matches of the pattern, each the one the pattern has at its start
  and within the text; they lie behind one another without overlap; and they are taken
  leftmost first: every position at which the pattern matches is the start of a match
  taken or lies inside one. A text in which the pattern matches nowhere is returned
  unchanged, so a text in which none of the three patterns matches is returned unchanged
  by \<open>redactPii\<close>.
\<close>

theorem redactPii_passes:
  "replace p r s = substitute r s 0 (global_matches p s)
   \<and>
   (\<forall>(i, n)\<in>set (global_matches p s). i + n \<le> length s \<and> matches_at p s i = Some n)
   \<and>
   sorted_wrt (\<lambda>a b. fst a + snd a \<le> fst b \<and> fst a < fst b) (global_matches p s)
   \<and>
   (\<forall>j\<le>length s. matches_at p s j = None \<or>
        (\<exists>(i, n)\<in>set (global_matches p s). i \<le> j \<and> (j = i \<or> j < i + n)))
   \<and>
   (let s1 = substitute ''[SSN_REDACTED]'' inp 0 (global_matches SSN_PATTERN inp);
        s2 = substitute ''[CC_REDACTED]'' s1 0 (global_matches CREDIT_CARD_PATTERN s1)
    in redactPii inp =
         substitute ''[EMAIL_REDACTED]'' s2 0 (global_matches EMAIL_IN_BODY_PATTERN s2))
   \<and>
   (match_free p s \<longrightarrow> replace p r s = s)
   \<and>
   (match_free SSN_PATTERN inp \<and> match_free CREDIT_CARD_PATTERN inp \<and>
    match_free EMAIL_IN_BODY_PATTERN inp
    \<longrightarrow> redactPii inp = inp)"
proof -
  have p1: "replace p r s = substitute r s 0 (global_matches p s)"
    by (rule replace_substitute)
  have p2: "\<forall>(i, n)\<in>set (global_matches p s). i + n \<le> length s \<and> matches_at p s i = Some n"
  proof (clarify, intro conjI)
    fix i n assume "(i, n) \<in> set (global_matches p s)"
    then have b: "i \<le> length s \<and> matches_at p s i = Some n"
      using matches_from_bounds [of i n p s 0] by (simp add: global_matches_def)
    then have "n \<le> length (drop i s)" unfolding matches_at_def using match_items_le by blast
    moreover have "i \<le> length s" using b by simp
    ultimately show "i + n \<le> length s" by simp
    show "matches_at p s i = Some n" using b by simp
  qed
  have p3: "sorted_wrt (\<lambda>a b. fst a + snd a \<le> fst b \<and> fst a < fst b) (global_matches p s)"
    unfolding global_matches_def by (rule matches_from_ordered)
  have p4: "\<forall>j\<le>length s. matches_at p s j = None \<or>
        (\<exists>(i, n)\<in>set (global_matches p s). i \<le> j \<and> (j = i \<or> j < i + n))"
  proof (intro allI impI)
    fix j assume j: "j \<le> length s"
    show "matches_at p s j = None \<or>
        (\<exists>(i, n)\<in>set (global_matches p s). i \<le> j \<and> (j = i \<or> j < i + n))"
    proof (cases "matches_at p s j")
      case None
      then show ?thesis by simp
    next
      case (Some m)
      then have "matches_at p s j \<noteq> None" by simp
      from matches_from_leftmost [OF _ j this, of 0] show ?thesis
        by (simp add: global_matches_def)
    qed
  qed
  have p5: "let s1 = substitute ''[SSN_REDACTED]'' inp 0 (global_matches SSN_PATTERN inp);
        s2 = substitute ''[CC_REDACTED]'' s1 0 (global_matches CREDIT_CARD_PATTERN s1)
    in redactPii inp =
         substitute ''[EMAIL_REDACTED]'' s2 0 (global_matches EMAIL_IN_BODY_PATTERN s2)"
    by (simp add: redactPii_def replace_substitute Let_def)
  have p6: "match_free p s \<longrightarrow> replace p r s = s"
    by (simp add: match_free_replace)
  have p7: "match_free SSN_PATTERN inp \<and> match_free CREDIT_CARD_PATTERN inp \<and>
    match_free EMAIL_IN_BODY_PATTERN inp \<longrightarrow> redactPii inp = inp"
    by (simp add: redactPii_def match_free_replace)
  from p1 p2 p3 p4 p5 p6 p7 show ?thesis by (intro conjI)
qed

text \<open>
  C9 as stated fails: the whole of \<open>123-45-6789@example.com\<close> matches the e-mail pattern,
  but the SSN pass runs first and takes its local part, after which the e-mail pattern
  matches nowhere; no \<open>[EMAIL_REDACTED]\<close> is written and \<open>@example.com\<close> stays.
\<close>

theorem ssn_before_email_counterexample:
  "matches_at EMAIL_IN_BODY_PATTERN ''123-45-6789@example.com'' 0 =
     Some (length ''123-45-6789@example.com'') \<and>
   redactPii ''123-45-6789@example.com'' = ''[SSN_REDACTED]@example.com''"
  by code_simp

theorem redactPii_passes_witness:
  "global_matches SSN_PATTERN ''ssn 123-45-6789, ok'' = [(4, 11)] \<and>
   matches_at SSN_PATTERN ''ssn 123-45-6789, ok'' 4 = Some 11 \<and>
   replace SSN_PATTERN ''[SSN_REDACTED]'' ''ssn 123-45-6789, ok'' = ''ssn [SSN_REDACTED], ok'' \<and>
   redactPii ''ssn 123-45-6789, mail bob@example.com'' =
     ''ssn [SSN_REDACTED], mail [EMAIL_REDACTED]'' \<and>
   match_free SSN_PATTERN ''Call Bob at 5 pm'' \<and>
   match_free CREDIT_CARD_PATTERN ''Call Bob at 5 pm'' \<and>
   match_free EMAIL_IN_BODY_PATTERN ''Call Bob at 5 pm'' \<and>
   redactPii ''Call Bob at 5 pm'' = ''Call Bob at 5 pm''"
proof -
  note t = redactPii_passes [where p = SSN_PATTERN and r = "''[SSN_REDACTED]''"
      and s = "''ssn 123-45-6789, ok''" and inp = "''ssn 123-45-6789, mail bob@example.com''"]
  note u = redactPii_passes [where p = SSN_PATTERN and r = "''[SSN_REDACTED]''"
      and s = "''Call Bob at 5 pm''" and inp = "''Call Bob at 5 pm''"]
  have gm: "global_matches SSN_PATTERN ''ssn 123-45-6789, ok'' = [(4, 11)]" by code_simp
  have g1: "matches_at SSN_PATTERN ''ssn 123-45-6789, ok'' 4 = Some 11"
    using t [THEN conjunct2, THEN conjunct1] unfolding gm by simp
  have g2: "replace SSN_PATTERN ''[SSN_REDACTED]'' ''ssn 123-45-6789, ok'' =
              ''ssn [SSN_REDACTED], ok''"
    unfolding t [THEN conjunct1] gm by simp
  have a1: "global_matches SSN_PATTERN ''ssn 123-45-6789, mail bob@example.com'' = [(4, 11)]"
    by code_simp
  have a2: "global_matches CREDIT_CARD_PATTERN ''ssn [SSN_REDACTED], mail bob@example.com'' = []"
    by code_simp
  have a3: "global_matches EMAIL_IN_BODY_PATTERN ''ssn [SSN_REDACTED], mail bob@example.com'' =
              [(25, 15)]"
    by code_simp
  have s1: "substitute ''[SSN_REDACTED]'' ''ssn 123-45-6789, mail bob@example.com'' 0
              (global_matches SSN_PATTERN ''ssn 123-45-6789, mail bob@example.com'') =
            ''ssn [SSN_REDACTED], mail bob@example.com''"
    unfolding a1 by simp
  have s2: "substitute ''[CC_REDACTED]'' ''ssn [SSN_REDACTED], mail bob@example.com'' 0
              (global_matches CREDIT_CARD_PATTERN ''ssn [SSN_REDACTED], mail bob@example.com'') =
            ''ssn [SSN_REDACTED], mail bob@example.com''"
    unfolding a2 by simp
  have g3: "redactPii ''ssn 123-45-6789, mail bob@example.com'' =
              ''ssn [SSN_REDACTED], mail [EMAIL_REDACTED]''"
    using t [THEN conjunct2, THEN conjunct2, THEN conjunct2, THEN conjunct2, THEN conjunct1]
    unfolding Let_def s1 s2 a3 by simp
  have f1: "match_free SSN_PATTERN ''Call Bob at 5 pm''" by code_simp
  have f2: "match_free CREDIT_CARD_PATTERN ''Call Bob at 5 pm''" by code_simp
  have f3: "match_free EMAIL_IN_BODY_PATTERN ''Call Bob at 5 pm''" by code_simp
  have g4: "redactPii ''Call Bob at 5 pm'' = ''Call Bob at 5 pm''"
    using u f1 f2 f3 by blast
  from gm g1 g2 g3 f1 f2 f3 g4 show ?thesis by (intro conjI)
qed
section \<open>Properties of the outbox sender\<close>

lemmas sample_defs = demo_env_def demo_world_def queued_row_def demo_task_def

lemmas outbox_defs =
  pollOutbox_def claimOutbox_def outbox_claim_ids_def outbox_ready_def claim_of_def
  pollOutbox_step_def pollOutbox_try_def pollOutbox_catch_def send_call_def updateOutbox_def
  findOutbox_def updateTask_def findTask_def recordTaskEvent_def

text \<open>
  C4. When the \<open>try\<close> block of a claimed row throws and the new failure count
  \<open>n = attempts + 1\<close> is below \<open>OUTBOX_MAX_ATTEMPTS\<close>, the row goes back to \<open>queued\<close> with
  \<open>attempts = n\<close> and \<open>next_retry_at\<close> equal to the clock reading plus
  \<open>min (30000 * 2 ^ n) 600000\<close> milliseconds. The delay is therefore 60000, 120000, 240000
  and 480000 ms after failures 1, 2, 3 and 4, and never more than 600000 ms.
\<close>

theorem retry_delay_schedule:
  assumes failed: "pollOutbox_try e msg w = (Some err, w1)"
      and n: "n = c_attempts msg + 1"
      and low: "int n < OUTBOX_MAX_ATTEMPTS e"
      and row: "findOutbox (c_outbox_id msg) w1 = Some row"
  shows "pollOutbox_step e msg w =
           (None, w1\<lparr>outbox := map (\<lambda>m. if outboxId m = c_outbox_id msg
                 then m\<lparr>ob_status := Queued, attempts := n,
                        nextRetryAt := dateNowAt e (c_outbox_id msg) + min (30000 * 2 ^ n) 600000\<rparr>
                 else m) (outbox w1)\<rparr>)
         \<and> computeNextRetry t n - t = min (30000 * 2 ^ n) 600000
         \<and> computeNextRetry t n - t \<le> 600000
         \<and> computeNextRetry t 1 - t = 60000
         \<and> computeNextRetry t 2 - t = 120000
         \<and> computeNextRetry t 3 - t = 240000
         \<and> computeNextRetry t 4 - t = 480000"
proof -
  have step: "pollOutbox_step e msg w = pollOutbox_catch e msg err w1"
    using failed by (simp add: pollOutbox_step_def)
  have "pollOutbox_catch e msg err w1 =
           (None, w1\<lparr>outbox := map (\<lambda>m. if outboxId m = c_outbox_id msg
                 then m\<lparr>ob_status := Queued, attempts := n,
                        nextRetryAt := dateNowAt e (c_outbox_id msg) + min (30000 * 2 ^ n) 600000\<rparr>
                 else m) (outbox w1)\<rparr>)"
    using n low row by (simp add: pollOutbox_catch_def updateOutbox_def computeNextRetry_def Let_def)
  with step show ?thesis by (simp add: computeNextRetry_def)
qed

theorem retry_delay_schedule_witness:
  "pollOutbox_try demo_env (claim_of queued_row) demo_world =
      (Some (Error ''WhatsApp API error''),
       demo_world\<lparr>api_calls := [SendWhatsApp (Some ''15551234567'') ''hi'']\<rparr>)
   \<and> int 1 < OUTBOX_MAX_ATTEMPTS demo_env
   \<and> findOutbox ''o1'' (demo_world\<lparr>api_calls := [SendWhatsApp (Some ''15551234567'') ''hi'']\<rparr>) = Some queued_row
   \<and> pollOutbox_step demo_env (claim_of queued_row) demo_world =
       (None, demo_world\<lparr>api_calls := [SendWhatsApp (Some ''15551234567'') ''hi''],
                 outbox := [queued_row\<lparr>ob_status := Queued, attempts := 1, nextRetryAt := 61002\<rparr>]\<rparr>)"
proof -
  let ?w1 = "demo_world\<lparr>api_calls := [SendWhatsApp (Some ''15551234567'') ''hi'']\<rparr>"
  have a: "pollOutbox_try demo_env (claim_of queued_row) demo_world = (Some (Error ''WhatsApp API error''), ?w1)"
    by (simp add: outbox_defs sample_defs)
  have b: "1 = c_attempts (claim_of queued_row) + 1" by (simp add: claim_of_def queued_row_def)
  have c: "int 1 < OUTBOX_MAX_ATTEMPTS demo_env" by (simp add: demo_env_def)
  have d: "findOutbox (c_outbox_id (claim_of queued_row)) ?w1 = Some queued_row"
    by (simp add: findOutbox_def claim_of_def sample_defs)
  from retry_delay_schedule [OF a b c d, of 0] a c d show ?thesis
    by (simp add: claim_of_def sample_defs)
qed

lemma updateOutbox_Inr:
  "updateOutbox i f w = Inr w' \<longleftrightarrow>
     findOutbox i w \<noteq> None \<and>
     w' = w\<lparr>outbox := map (\<lambda>m. if outboxId m = i then f m else m) (outbox w)\<rparr>"
  by (auto simp: updateOutbox_def split: option.splits)

lemma updateTask_Inr:
  "updateTask i f w = Inr w' \<longleftrightarrow>
     findTask i w \<noteq> None \<and>
     w' = w\<lparr>tasks := map (\<lambda>t. if taskId t = i then f t else t) (tasks w)\<rparr>"
  by (auto simp: updateTask_def split: option.splits)

lemma recordTaskEvent_outbox [simp]: "outbox (recordTaskEvent t u ty p w) = outbox w"
  by (simp add: recordTaskEvent_def)



























section \<open>Properties of the scheduler\<close>

lemma insort_key_map:
  "(\<And>y. k (g y) = k y) \<Longrightarrow> insort_key k (g x) (map g ys) = map g (insort_key k x ys)"
  by (induction ys) simp_all

lemma sort_key_map:
  "(\<And>y. k (g y) = k y) \<Longrightarrow> sort_key k (map g xs) = map g (sort_key k xs)"
  by (induction xs) (simp_all add: insort_key_map)

lemma returned_rows:
  "fst (claimDueTasks e w) =
     map (\<lambda>t. (taskId t, t_userId t))
       (sort_key (\<lambda>t. returningRank e (taskId t))
          (filter (\<lambda>t. taskId t \<in> set (due_claim_ids (jsNow e) w)) (tasks w)))"
proof -
  let ?k = "\<lambda>t. returningRank e (taskId t)"
  have "map (\<lambda>t. (taskId t, t_userId t))
          (sort_key ?k (filter (\<lambda>t. taskId t \<in> A)
             (map (\<lambda>t. if taskId t \<in> A then t\<lparr>t_status := Due, t_updatedAt := d\<rparr> else t) xs))) =
        map (\<lambda>t. (taskId t, t_userId t)) (sort_key ?k (filter (\<lambda>t. taskId t \<in> A) xs))"
    for A d xs
  proof -
    let ?g = "\<lambda>t. if taskId t \<in> A then t\<lparr>t_status := Due, t_updatedAt := d\<rparr> else t"
    have f: "filter (\<lambda>t. taskId t \<in> A) (map ?g xs) = map ?g (filter (\<lambda>t. taskId t \<in> A) xs)"
      by (induction xs) auto
    have s: "sort_key ?k (map ?g ys) = map ?g (sort_key ?k ys)" for ys
      by (rule sort_key_map) simp
    show ?thesis unfolding f s by (simp add: o_def)
  qed
  then show ?thesis by (simp add: claimDueTasks_def Let_def)
qed

lemma claimed_tasks:
  "tasks (snd (claimDueTasks e w)) =
     map (\<lambda>t. if taskId t \<in> set (due_claim_ids (jsNow e) w)
               then t\<lparr>t_status := Due, t_updatedAt := dbNow e\<rparr> else t) (tasks w)"
  by (simp add: claimDueTasks_def Let_def)

lemma enqueueExecute_tasks [simp]: "tasks (enqueueExecute r w) = tasks w"
  by (simp add: enqueueExecute_def recordTaskEvent_def Let_def)

lemma fold_enqueue_tasks [simp]: "tasks (fold enqueueExecute rs w) = tasks w"
  by (induction rs arbitrary: w) simp_all

lemma tick_tasks: "tasks (tick e w) = tasks (snd (claimDueTasks e w))"
  by (cases "claimDueTasks e w") (simp add: tick_def)

lemma fold_enqueue_queue:
  "execute_queue (fold enqueueExecute rs w) =
     execute_queue w @ map (\<lambda>r. (''exec:'' @ fst r, fst r)) rs"
  by (induction rs arbitrary: w) (simp_all add: enqueueExecute_def recordTaskEvent_def Let_def)

lemma claim_queue [simp]: "execute_queue (snd (claimDueTasks e w)) = execute_queue w"
  by (simp add: claimDueTasks_def Let_def)

lemma tick_queue:
  "execute_queue (tick e w) =
     execute_queue w @ map (\<lambda>r. (''exec:'' @ fst r, fst r)) (fst (claimDueTasks e w))"
  by (cases "claimDueTasks e w") (use claim_queue [of e w] in \<open>auto simp: tick_def fold_enqueue_queue\<close>)

lemma ids_batch: "due_claim_ids now w = map taskId (due_batch now w)"
  by (simp add: due_claim_ids_def)

lemma batch_subset: "set (due_batch now w) \<subseteq> {t \<in> set (tasks w). task_eligible now t}"
  unfolding due_batch_def by (auto dest!: in_set_takeD)

lemma batch_length:
  "length (due_batch now w) = min 100 (length (filter (task_eligible now) (tasks w)))"
  by (simp add: due_batch_def min.commute)

lemma batch_distinct:
  assumes "distinct (map taskId (tasks w))"
  shows "distinct (map taskId (due_batch now w))"
proof -
  have "distinct (map taskId (filter (task_eligible now) (tasks w)))"
    using assms by (rule distinct_map_filter)
  then have "distinct (map taskId (sort_key (\<lambda>t. the (dueAt t)) (filter (task_eligible now) (tasks w))))"
    by (simp add: distinct_map)
  then show ?thesis unfolding due_batch_def by (simp add: distinct_take take_map [symmetric])
qed

lemma in_batch_iff:
  assumes d: "distinct (map taskId (tasks w))" and t: "t \<in> set (tasks w)"
  shows "taskId t \<in> set (due_claim_ids now w) \<longleftrightarrow> t \<in> set (due_batch now w)"
proof
  assume "taskId t \<in> set (due_claim_ids now w)"
  then obtain s where s: "s \<in> set (due_batch now w)" "taskId s = taskId t"
    by (auto simp: ids_batch)
  then have "s \<in> set (tasks w)" using batch_subset by blast
  with d t s(2) have "s = t" by (meson distinct_map inj_onD)
  with s(1) show "t \<in> set (due_batch now w)" by simp
next
  assume "t \<in> set (due_batch now w)"
  then show "taskId t \<in> set (due_claim_ids now w)" by (simp add: ids_batch)
qed

lemma claimed_filter:
  assumes d: "distinct (map taskId (tasks w))"
  shows "set (filter (\<lambda>t. taskId t \<in> set (due_claim_ids now w)) (tasks w)) = set (due_batch now w)"
  using in_batch_iff [OF d] batch_subset [of now w] by auto

lemma returned_length:
  assumes d: "distinct (map taskId (tasks w))"
  shows "length (fst (claimDueTasks e w)) =
           min 100 (length (filter (task_eligible (jsNow e)) (tasks w)))"
proof -
  let ?F = "filter (\<lambda>t. taskId t \<in> set (due_claim_ids (jsNow e) w)) (tasks w)"
  have dt: "distinct (tasks w)" using d by (simp add: distinct_map)
  have "distinct ?F" using dt by simp
  then have "length ?F = card (set ?F)" by (rule distinct_card [symmetric])
  also have "\<dots> = card (set (due_batch (jsNow e) w))" using claimed_filter [OF d] by simp
  also have "\<dots> = length (due_batch (jsNow e) w)"
  proof -
    have "distinct (due_batch (jsNow e) w)"
      using batch_distinct [OF d, of "jsNow e"] by (simp add: distinct_map)
    then show ?thesis by (rule distinct_card)
  qed
  finally show ?thesis by (simp add: returned_rows batch_length)
qed

lemma returned_distinct:
  assumes d: "distinct (map taskId (tasks w))"
  shows "distinct (map fst (fst (claimDueTasks e w)))"
proof -
  let ?F = "filter (\<lambda>t. taskId t \<in> set (due_claim_ids (jsNow e) w)) (tasks w)"
  have "map fst (fst (claimDueTasks e w)) =
        map taskId (sort_key (\<lambda>t. returningRank e (taskId t)) ?F)"
    by (simp add: returned_rows o_def)
  moreover have "distinct (map taskId ?F)" using d by (rule distinct_map_filter)
  then have "distinct (map taskId (sort_key (\<lambda>t. returningRank e (taskId t)) ?F))"
    by (simp add: distinct_map)
  ultimately show ?thesis by simp
qed

lemma returned_ids:
  assumes d: "distinct (map taskId (tasks w))"
  shows "fst ` set (fst (claimDueTasks e w)) = set (due_claim_ids (jsNow e) w)"
proof -
  have "fst ` set (fst (claimDueTasks e w)) =
        taskId ` set (filter (\<lambda>t. taskId t \<in> set (due_claim_ids (jsNow e) w)) (tasks w))"
    by (simp add: returned_rows image_image)
  also have "\<dots> = taskId ` set (due_batch (jsNow e) w)" using claimed_filter [OF d] by simp
  finally show ?thesis by (simp add: ids_batch)
qed

lemma batch_earliest:
  assumes s: "s \<in> set (due_batch now w)" and u: "u \<in> set (tasks w)" "task_eligible now u"
      "u \<notin> set (due_batch now w)"
  shows "the (dueAt s) \<le> the (dueAt u)"
proof -
  let ?k = "\<lambda>t. the (dueAt t)"
  let ?L = "sort_key ?k (filter (task_eligible now) (tasks w))"
  have srt: "sorted (map ?k ?L)" by (rule sorted_sort_key)
  have "?L = take 100 ?L @ drop 100 ?L" by simp
  then have "sorted (map ?k (take 100 ?L @ drop 100 ?L))" using srt by simp
  then have le: "\<forall>x\<in>set (take 100 ?L). \<forall>y\<in>set (drop 100 ?L). ?k x \<le> ?k y"
    by (simp only: map_append sorted_append) auto
  have "u \<in> set ?L" using u(1,2) by simp
  then have "u \<in> set (take 100 ?L) \<union> set (drop 100 ?L)"
    by (metis append_take_drop_id set_append)
  with u(3) have "u \<in> set (drop 100 ?L)" by (simp add: due_batch_def)
  with s le show ?thesis by (simp add: due_batch_def)
qed

lemma no_eligible_left:
  assumes d: "distinct (map taskId (tasks w))"
      and small: "length (filter (task_eligible now) (tasks w)) \<le> 100"
      and e: "jsNow e = now"
  shows "filter (task_eligible now) (tasks (snd (claimDueTasks e w))) = []"
proof -
  have all: "due_batch now w = sort_key (\<lambda>t. the (dueAt t)) (filter (task_eligible now) (tasks w))"
    using small by (simp add: due_batch_def)
  have "\<not> task_eligible now t'"
    if t': "t' \<in> set (tasks (snd (claimDueTasks e w)))" for t'
  proof -
    from t' obtain t where t: "t \<in> set (tasks w)"
      and eq: "t' = (if taskId t \<in> set (due_claim_ids now w)
                     then t\<lparr>t_status := Due, t_updatedAt := dbNow e\<rparr> else t)"
      by (auto simp: claimed_tasks e)
    show ?thesis
    proof (cases "taskId t \<in> set (due_claim_ids now w)")
      case True
      then show ?thesis using eq by (simp add: task_eligible_def)
    next
      case False
      then have "t \<notin> set (due_batch now w)" using in_batch_iff [OF d t] by simp
      then have "\<not> task_eligible now t" using t by (simp add: all)
      then show ?thesis using eq False by simp
    qed
  qed
  then show ?thesis by (simp add: filter_empty_conv)
qed

lemma claim_nothing:
  assumes "filter (task_eligible (jsNow e)) (tasks w) = []"
  shows "fst (claimDueTasks e w) = [] \<and> tasks (snd (claimDueTasks e w)) = tasks w"
proof -
  have "due_claim_ids (jsNow e) w = []" using assms by (simp add: due_claim_ids_def due_batch_def)
  then show ?thesis by (simp add: returned_rows claimed_tasks)
qed

text \<open>
  C2 (amended). With unique task keys, one tick sets to \<open>due\<close>, with \<open>updated_at\<close> the
  database clock, the rows it returns and no other; it returns, in whatever order the
  database gives them, \<open>(task_id, user_id)\<close> of \<open>min 100 n\<close> distinct rows, \<open>n\<close> the number
  of rows with \<open>status = pending\<close> and \<open>due_at <= now\<close>; every returned row was one of
  those, and was due no later than every such row left behind; a row whose \<open>due_at\<close> is
  \<open>NULL\<close> or in the future is not returned and not changed; one execute job
  \<open>exec:<task_id>\<close> is enqueued per returned row, in the order returned. When at most 100
  rows were eligible, a repeated tick at the same instant returns nothing and changes no
  task.
\<close>

theorem tick_claims_due_tasks:
  assumes d: "distinct (map taskId (tasks w))"
  shows "tasks (tick e w) =
           map (\<lambda>t. if taskId t \<in> fst ` set (fst (claimDueTasks e w))
                     then t\<lparr>t_status := Due, t_updatedAt := dbNow e\<rparr> else t) (tasks w)
       \<and> set (fst (claimDueTasks e w)) =
           (\<lambda>t. (taskId t, t_userId t)) `
             {t \<in> set (tasks w). taskId t \<in> fst ` set (fst (claimDueTasks e w))}
       \<and> distinct (map fst (fst (claimDueTasks e w)))
       \<and> length (fst (claimDueTasks e w)) =
           min 100 (length (filter (task_eligible (jsNow e)) (tasks w)))
       \<and> (\<forall>t\<in>set (tasks w). taskId t \<in> fst ` set (fst (claimDueTasks e w)) \<longrightarrow>
             t_status t = Pending \<and> (\<exists>due. dueAt t = Some due \<and> due \<le> jsNow e))
       \<and> (\<forall>t\<in>set (tasks w). \<forall>u\<in>set (tasks w).
             taskId t \<in> fst ` set (fst (claimDueTasks e w)) \<and> task_eligible (jsNow e) u \<and>
             taskId u \<notin> fst ` set (fst (claimDueTasks e w)) \<longrightarrow>
             the (dueAt t) \<le> the (dueAt u))
       \<and> (\<forall>t\<in>set (tasks w).
             dueAt t = None \<or> (\<exists>due. dueAt t = Some due \<and> jsNow e < due) \<longrightarrow>
             taskId t \<notin> fst ` set (fst (claimDueTasks e w)) \<and> t \<in> set (tasks (tick e w)))
       \<and> execute_queue (tick e w) =
           execute_queue w @ map (\<lambda>r. (''exec:'' @ fst r, fst r)) (fst (claimDueTasks e w))
       \<and> (length (filter (task_eligible (jsNow e)) (tasks w)) \<le> 100 \<and> jsNow e' = jsNow e \<longrightarrow>
             fst (claimDueTasks e' (tick e w)) = [] \<and>
             tasks (tick e' (tick e w)) = tasks (tick e w))"
proof -
  let ?now = "jsNow e"
  let ?C = "fst ` set (fst (claimDueTasks e w))"
  have C: "?C = set (due_claim_ids ?now w)" by (rule returned_ids [OF d])
  have p1: "tasks (tick e w) =
           map (\<lambda>t. if taskId t \<in> ?C
                     then t\<lparr>t_status := Due, t_updatedAt := dbNow e\<rparr> else t) (tasks w)"
    unfolding C by (simp add: tick_tasks claimed_tasks)
  have p2: "set (fst (claimDueTasks e w)) =
           (\<lambda>t. (taskId t, t_userId t)) ` {t \<in> set (tasks w). taskId t \<in> ?C}"
  proof -
    have "set (fst (claimDueTasks e w)) =
            (\<lambda>t. (taskId t, t_userId t)) `
              set (filter (\<lambda>t. taskId t \<in> set (due_claim_ids ?now w)) (tasks w))"
      by (simp add: returned_rows)
    then show ?thesis unfolding C by simp
  qed
  have p3: "distinct (map fst (fst (claimDueTasks e w)))" by (rule returned_distinct [OF d])
  have p4: "length (fst (claimDueTasks e w)) =
           min 100 (length (filter (task_eligible ?now) (tasks w)))"
    by (rule returned_length [OF d])
  have elig: "task_eligible ?now t" if "t \<in> set (tasks w)" "taskId t \<in> ?C" for t
    using that in_batch_iff [OF d that(1), of ?now] batch_subset [of ?now w] by (auto simp: C)
  have p5: "\<forall>t\<in>set (tasks w). taskId t \<in> ?C \<longrightarrow>
             t_status t = Pending \<and> (\<exists>due. dueAt t = Some due \<and> due \<le> ?now)"
  proof (intro ballI impI)
    fix t assume "t \<in> set (tasks w)" "taskId t \<in> ?C"
    then have "task_eligible ?now t" by (rule elig)
    then show "t_status t = Pending \<and> (\<exists>due. dueAt t = Some due \<and> due \<le> ?now)"
      by (cases "dueAt t") (simp_all add: task_eligible_def)
  qed
  have p6: "\<forall>t\<in>set (tasks w). \<forall>u\<in>set (tasks w).
             taskId t \<in> ?C \<and> task_eligible ?now u \<and> taskId u \<notin> ?C \<longrightarrow>
             the (dueAt t) \<le> the (dueAt u)"
  proof (intro ballI impI)
    fix t u
    assume t: "t \<in> set (tasks w)" and u: "u \<in> set (tasks w)"
      and h: "taskId t \<in> ?C \<and> task_eligible ?now u \<and> taskId u \<notin> ?C"
    have "t \<in> set (due_batch ?now w)" using h in_batch_iff [OF d t, of ?now] by (simp add: C)
    moreover have "u \<notin> set (due_batch ?now w)" using h in_batch_iff [OF d u, of ?now] by (simp add: C)
    ultimately show "the (dueAt t) \<le> the (dueAt u)"
      using batch_earliest [of t ?now w u] u h by simp
  qed
  have p7: "\<forall>t\<in>set (tasks w).
             dueAt t = None \<or> (\<exists>due. dueAt t = Some due \<and> ?now < due) \<longrightarrow>
             taskId t \<notin> ?C \<and> t \<in> set (tasks (tick e w))"
  proof (intro ballI impI)
    fix t
    assume t: "t \<in> set (tasks w)"
      and h: "dueAt t = None \<or> (\<exists>due. dueAt t = Some due \<and> ?now < due)"
    from h have "\<not> task_eligible ?now t" by (auto simp: task_eligible_def)
    then have n: "taskId t \<notin> ?C" using elig [OF t] by blast
    then have "t \<in> set (tasks (tick e w))" unfolding p1 using t by force
    with n show "taskId t \<notin> ?C \<and> t \<in> set (tasks (tick e w))" by simp
  qed
  have p8: "execute_queue (tick e w) =
           execute_queue w @ map (\<lambda>r. (''exec:'' @ fst r, fst r)) (fst (claimDueTasks e w))"
    by (rule tick_queue)
  have p9: "length (filter (task_eligible ?now) (tasks w)) \<le> 100 \<and> jsNow e' = ?now \<longrightarrow>
             fst (claimDueTasks e' (tick e w)) = [] \<and>
             tasks (tick e' (tick e w)) = tasks (tick e w)"
  proof
    assume h: "length (filter (task_eligible ?now) (tasks w)) \<le> 100 \<and> jsNow e' = ?now"
    have "filter (task_eligible ?now) (tasks (snd (claimDueTasks e w))) = []"
      using no_eligible_left [OF d _ refl] h by simp
    then have "filter (task_eligible (jsNow e')) (tasks (tick e w)) = []"
      using h by (simp add: tick_tasks)
    from claim_nothing [OF this]
    show "fst (claimDueTasks e' (tick e w)) = [] \<and>
          tasks (tick e' (tick e w)) = tasks (tick e w)"
      by (simp add: tick_tasks [of e' "tick e w"])
  qed
  from p1 p2 p3 p4 p5 p6 p7 p8 p9 show ?thesis by (intro conjI)
qed

lemma second_tick_more:
  assumes d: "distinct (map taskId (tasks w))"
      and big: "100 < length (filter (task_eligible (jsNow e)) (tasks w))"
      and same: "jsNow e' = jsNow e"
  shows "fst (claimDueTasks e' (tick e w)) \<noteq> []"
proof -
  let ?now = "jsNow e"
  let ?E = "filter (task_eligible ?now) (tasks w)"
  have "distinct ?E" using d by (simp add: distinct_map)
  then have "card (set ?E) = length ?E" by (rule distinct_card)
  moreover have "card (set (due_batch ?now w)) \<le> length (due_batch ?now w)" by (rule card_length)
  moreover have "length (due_batch ?now w) = 100" using big by (simp add: batch_length)
  ultimately have "card (set (due_batch ?now w)) < card (set ?E)" using big by simp
  then have "\<not> set ?E \<subseteq> set (due_batch ?now w)"
    by (meson List.finite_set card_mono not_less)
  then obtain u where u: "u \<in> set (tasks w)" "task_eligible ?now u" "u \<notin> set (due_batch ?now w)"
    by auto
  have "taskId u \<notin> set (due_claim_ids ?now w)" using in_batch_iff [OF d u(1)] u(3) by simp
  then have "u \<in> set (tasks (tick e w))"
    using u(1) by (force simp: tick_tasks claimed_tasks)
  then have ne: "filter (task_eligible (jsNow e')) (tasks (tick e w)) \<noteq> []"
    using u(2) same by (auto simp: filter_empty_conv)
  then have "length (due_batch (jsNow e') (tick e w)) \<noteq> 0" by (simp add: batch_length)
  then have "due_batch (jsNow e') (tick e w) \<noteq> []" by auto
  then obtain s where s: "s \<in> set (due_batch (jsNow e') (tick e w))"
    by (meson last_in_set)
  then have "s \<in> set (tasks (tick e w))" using batch_subset by blast
  moreover have "taskId s \<in> set (due_claim_ids (jsNow e') (tick e w))"
    using s by (simp add: ids_batch)
  ultimately have "filter (\<lambda>t. taskId t \<in> set (due_claim_ids (jsNow e') (tick e w)))
                     (tasks (tick e w)) \<noteq> []"
    by (auto simp: filter_empty_conv)
  then have "length (fst (claimDueTasks e' (tick e w))) \<noteq> 0" by (simp add: returned_rows)
  then show ?thesis by auto
qed

lemma digit_char_inj: "a < 10 \<Longrightarrow> b < 10 \<Longrightarrow> digit_char a = digit_char b \<Longrightarrow> a = b"
proof -
  assume a: "a < 10" and b: "b < 10" and eq: "digit_char a = digit_char b"
  have "a \<in> {0,1,2,3,4,5,6,7,8,9}" using a by auto
  moreover have "b \<in> {0,1,2,3,4,5,6,7,8,9}" using b by auto
  ultimately show ?thesis using eq by (auto simp: digit_char_def)
qed

lemma decimal_length: "10 \<le> n \<Longrightarrow> 2 \<le> length (decimal n)"
  by (subst decimal.simps) (simp, subst decimal.simps, simp)

lemma decimal_inj: "decimal n = decimal m \<Longrightarrow> n = m"
proof (induction n arbitrary: m rule: decimal.induct)
  case (1 n)
  show ?case
  proof (cases "n < 10")
    case True
    then have dn: "decimal n = [digit_char n]" by (simp add: decimal.simps)
    have "m < 10"
    proof (rule ccontr)
      assume "\<not> m < 10"
      then have "2 \<le> length (decimal m)" by (simp add: decimal_length)
      moreover have "length (decimal m) = 1" using "1.prems" dn by (metis length_Cons list.size(3) One_nat_def)
      ultimately show False by simp
    qed
    then have "decimal m = [digit_char m]" by (simp add: decimal.simps)
    then show ?thesis using "1.prems" dn True \<open>m < 10\<close> digit_char_inj by simp
  next
    case False
    then have dn: "decimal n = decimal (n div 10) @ [digit_char (n mod 10)]"
      by (subst decimal.simps) simp
    have "\<not> m < 10"
    proof
      assume "m < 10"
      then have "decimal m = [digit_char m]" by (simp add: decimal.simps)
      moreover have "2 \<le> length (decimal n)" using False by (simp add: decimal_length)
      ultimately show False using "1.prems" by (metis length_Cons list.size(3) One_nat_def numeral_le_one_iff semiring_norm(69))
    qed
    then have dm: "decimal m = decimal (m div 10) @ [digit_char (m mod 10)]"
      by (subst decimal.simps) simp
    from "1.prems" dn dm have h: "decimal (n div 10) = decimal (m div 10)"
      "digit_char (n mod 10) = digit_char (m mod 10)" by simp_all
    have "n div 10 = m div 10" using "1.IH" [OF False h(1)] .
    moreover have "n mod 10 = m mod 10" using digit_char_inj [OF _ _ h(2)] by simp
    ultimately show ?thesis by (metis div_mult_mod_eq)
  qed
qed

lemma uuid_inj: "inj uuid"
  by (rule injI) (simp add: uuid_def decimal_inj)

lemma crowded_distinct: "distinct (map taskId (tasks crowded_world))"
proof -
  have "map taskId (tasks crowded_world) = map uuid [0..<101]"
    by (simp add: crowded_world_def pending_task_def o_def)
  moreover have "distinct (map uuid [0..<101])"
    using uuid_inj by (simp add: distinct_map inj_on_def inj_def)
  ultimately show ?thesis by simp
qed

lemma crowded_eligible:
  "length (filter (task_eligible (jsNow sched_env)) (tasks crowded_world)) = 101"
proof -
  have "\<forall>t\<in>set (tasks crowded_world). task_eligible (jsNow sched_env) t"
    by (auto simp: crowded_world_def pending_task_def task_eligible_def sched_env_def)
  then have "filter (task_eligible (jsNow sched_env)) (tasks crowded_world) = tasks crowded_world"
    by (simp add: filter_id_conv)
  then show ?thesis by (simp add: crowded_world_def)
qed

text \<open>
  C2 as stated fails in its last clause: with 101 pending tasks that are all due, the
  first tick claims 100 and an identical second tick claims the one left over.
\<close>

theorem repeated_tick_counterexample:
  "length (filter (task_eligible (jsNow sched_env)) (tasks crowded_world)) = 101 \<and>
   length (fst (claimDueTasks sched_env crowded_world)) = 100 \<and>
   fst (claimDueTasks sched_env (tick sched_env crowded_world)) \<noteq> []"
proof -
  have "fst (claimDueTasks sched_env (tick sched_env crowded_world)) \<noteq> []"
    using second_tick_more [OF crowded_distinct, of sched_env sched_env] crowded_eligible by simp
  moreover have "length (fst (claimDueTasks sched_env crowded_world)) = 100"
    using returned_length [OF crowded_distinct, of sched_env] crowded_eligible by simp
  ultimately show ?thesis using crowded_eligible by simp
qed

theorem tick_claims_due_tasks_witness:
  "distinct (map taskId (tasks sched_world)) \<and>
   set (fst (claimDueTasks sched_env sched_world)) =
     {(''task-1'', ''user-1''), (''task-2'', ''user-2''), (''task-3'', ''user-1'')} \<and>
   length (fst (claimDueTasks sched_env sched_world)) = 3 \<and>
   map (\<lambda>t. (taskId t, t_status t, t_updatedAt t)) (tasks (tick sched_env sched_world)) =
     [(''task-3'', Due, 601), (''task-4'', Pending, 0), (''task-1'', Due, 601),
      (''task-2'', Due, 601)] \<and>
   set (execute_queue (tick sched_env sched_world)) =
     {(''exec:task-1'', ''task-1''), (''exec:task-2'', ''task-2''), (''exec:task-3'', ''task-3'')} \<and>
   length (execute_queue (tick sched_env sched_world)) = 3 \<and>
   fst (claimDueTasks sched_env (tick sched_env sched_world)) = [] \<and>
   tasks (tick sched_env (tick sched_env sched_world)) = tasks (tick sched_env sched_world)"
proof -
  have d: "distinct (map taskId (tasks sched_world))"
    by (simp add: sched_world_def pending_task_def)
  note t = tick_claims_due_tasks [OF d, of sched_env sched_env]
  have ids: "due_claim_ids (jsNow sched_env) sched_world = [''task-1'', ''task-2'', ''task-3'']"
    by (simp add: due_claim_ids_def due_batch_def task_eligible_def sched_env_def sched_world_def
          pending_task_def demo_env_def)
  have c: "fst ` set (fst (claimDueTasks sched_env sched_world)) =
             {''task-1'', ''task-2'', ''task-3''}"
    using returned_ids [OF d, of sched_env] by (simp add: ids)
  have r0: "set (fst (claimDueTasks sched_env sched_world)) =
     (\<lambda>t. (taskId t, t_userId t)) `
       {t \<in> set (tasks sched_world). taskId t \<in> {''task-1'', ''task-2'', ''task-3''}}"
    using t [THEN conjunct2, THEN conjunct1] by (simp only: c)
  have r: "set (fst (claimDueTasks sched_env sched_world)) =
     {(''task-1'', ''user-1''), (''task-2'', ''user-2''), (''task-3'', ''user-1'')}"
    unfolding r0 set_filter [symmetric]
    by (simp add: sched_world_def pending_task_def insert_commute)
  have small: "length (filter (task_eligible (jsNow sched_env)) (tasks sched_world)) \<le> 100"
    by (simp add: task_eligible_def sched_env_def sched_world_def pending_task_def demo_env_def)
  have n: "length (fst (claimDueTasks sched_env sched_world)) = 3"
    unfolding t [THEN conjunct2, THEN conjunct2, THEN conjunct2, THEN conjunct1]
    by (simp add: task_eligible_def sched_env_def sched_world_def pending_task_def demo_env_def)
  have tk: "map (\<lambda>t. (taskId t, t_status t, t_updatedAt t)) (tasks (tick sched_env sched_world)) =
     [(''task-3'', Due, 601), (''task-4'', Pending, 0), (''task-1'', Due, 601),
      (''task-2'', Due, 601)]"
    unfolding t [THEN conjunct1] c
    by (simp add: sched_world_def pending_task_def sched_env_def)
  have q: "execute_queue (tick sched_env sched_world) =
     map (\<lambda>r. (''exec:'' @ fst r, fst r)) (fst (claimDueTasks sched_env sched_world))"
    using t by (simp add: sched_world_def demo_world_def)
  have qs: "set (execute_queue (tick sched_env sched_world)) =
     {(''exec:task-1'', ''task-1''), (''exec:task-2'', ''task-2''), (''exec:task-3'', ''task-3'')}"
    unfolding q set_map r by simp
  have ql: "length (execute_queue (tick sched_env sched_world)) = 3"
    unfolding q using n by simp
  have again: "fst (claimDueTasks sched_env (tick sched_env sched_world)) = [] \<and>
   tasks (tick sched_env (tick sched_env sched_world)) = tasks (tick sched_env sched_world)"
    using t small by blast
  from d r n tk qs ql again show ?thesis by (intro conjI) (simp_all only: simp_thms)
qed
section \<open>Properties of the executor\<close>

lemma find_map_upd:
  "(\<And>t. taskId (f t) = taskId t) \<Longrightarrow>
     find (\<lambda>t. taskId t = i) (map (\<lambda>t. if taskId t = i then f t else t) xs) =
     map_option f (find (\<lambda>t. taskId t = i) xs)"
  by (induction xs) auto

lemma findTask_updateTask:
  assumes "updateTask i f w = Inr w'" "\<And>t. taskId (f t) = taskId t"
  shows "findTask i w' = map_option f (findTask i w)"
  using assms by (auto simp: updateTask_def findTask_def find_map_upd split: option.splits)

lemma findTask_recordTaskEvent [simp]: "findTask i (recordTaskEvent t u ty p w) = findTask i w"
  by (simp add: findTask_def recordTaskEvent_def)

lemma findTask_createOutbox [simp]: "findTask i (snd (createOutbox e d w)) = findTask i w"
  by (simp add: findTask_def createOutbox_def Let_def)

lemma finish_status:
  assumes "findTask (taskId t) w = Some t0" "t_status t0 \<noteq> Due"
  shows "\<exists>t'. findTask (taskId t) (snd (processExecute_finish e t ch rc sb bd w)) = Some t' \<and>
              t_status t' \<noteq> Due"
proof -
  obtain row w1 where c: "createOutbox e
            \<lparr>ob_taskId = Some (taskId t), ob_userId = t_userId t, ob_channel = ch,
             payload = \<lparr>p_to = rc, p_subject = Some sb, p_body = bd\<rparr>,
             ob_status = Queued\<rparr> w = (row, w1)" by (cases "createOutbox e
            \<lparr>ob_taskId = Some (taskId t), ob_userId = t_userId t, ob_channel = ch,
             payload = \<lparr>p_to = rc, p_subject = Some sb, p_body = bd\<rparr>,
             ob_status = Queued\<rparr> w")
  then have f1: "findTask (taskId t) w1 = Some t0"
    using assms(1) findTask_createOutbox [of "taskId t" e _ w] by (metis snd_conv)
  show ?thesis
  proof (cases "updateTask (taskId t) (\<lambda>x. x\<lparr>t_status := Sending\<rparr>) w1")
    case (Inl err)
    then show ?thesis using c f1 assms(2) by (simp add: processExecute_finish_def)
  next
    case (Inr w2)
    then have "findTask (taskId t) w2 = Some (t0\<lparr>t_status := Sending\<rparr>)"
      using findTask_updateTask [OF Inr] f1 by simp
    then show ?thesis using c Inr by (simp add: processExecute_finish_def)
  qed
qed

lemma execute_leaves_not_due:
  assumes t: "findTask tid w = Some t" and due: "t_status t = Due"
  shows "\<exists>t'. findTask tid (snd (processExecute e tid w)) = Some t' \<and> t_status t' \<noteq> Due"
proof -
  have tid: "taskId t = tid" using t by (auto simp: findTask_def dest: find_Some_iff [THEN iffD1])
  let ?f = "\<lambda>x. x\<lparr>t_status := Executing, lastAttemptAt := Some (jsNow e),
                         attemptCount := attemptCount x + 1\<rparr>"
  obtain w1 where u: "updateTask tid ?f w = Inr w1"
    using t by (simp add: updateTask_def)
  have f1: "findTask tid w1 = Some (?f t)"
    using findTask_updateTask [OF u] t by simp
  let ?w2 = "recordTaskEvent tid (t_userId t) EvExecuting NoPayload w1"
  have f2: "findTask tid ?w2 = Some (?f t)" using f1 by simp
  have ex: "t_status (?f t) \<noteq> Due" by simp
  have fin: "\<exists>t'. findTask tid (snd (processExecute_finish e t ch rc sb bd v)) = Some t' \<and>
              t_status t' \<noteq> Due" if "findTask tid v = Some (?f t)" for ch rc sb bd v
    using finish_status [of t v "?f t" e ch rc sb bd] that tid ex by simp
  show ?thesis
  proof (cases "findUser (t_userId t) w")
    case None
    then show ?thesis using t due u f2 by (simp add: processExecute_def Let_def)
  next
    case (Some usr)
    show ?thesis
    proof (cases "actionType t = ''remind''")
      case True
      then show ?thesis using t due u Some fin [OF f2]
        by (simp add: processExecute_def Let_def)
    next
      case False
      show ?thesis
      proof (cases "draftFollowUp e (or_default (contactHint t) ''the contact'')
                               (or_default (t_context t) ''a follow-up'')
                               (case preferences usr of None \<Rightarrow> ''friendly'' | Some p \<Rightarrow> tone p)")
        case (Inl err)
        then show ?thesis using t due u Some False f2
          by (simp add: processExecute_def Let_def)
      next
        case (Inr d)
        have "findTask tid (recordTaskEvent tid (t_userId t) EvDraftGenerated (Draft d) ?w2) = Some (?f t)"
          using f2 by simp
        from fin [OF this] show ?thesis using t due u Some False Inr
          by (simp add: processExecute_def Let_def)
      qed
    qed
  qed
qed

text \<open>
  C6. When the task of an execute job does not exist or is not \<open>due\<close>, \<open>processExecute\<close>
  returns without an error and the world is unchanged. A run that passes the gate leaves
  the task \<open>executing\<close> or \<open>sending\<close>, so running the same job again after any run changes
  nothing.
\<close>

theorem execute_gate:
  "(findTask tid w = None \<or> (\<exists>t. findTask tid w = Some t \<and> t_status t \<noteq> Due)
      \<longrightarrow> processExecute e tid w = (None, w))
   \<and> processExecute e' tid (snd (processExecute e tid w)) = (None, snd (processExecute e tid w))"
proof -
  have gate: "processExecute e tid w = (None, w)"
    if "findTask tid w = None \<or> (\<exists>t. findTask tid w = Some t \<and> t_status t \<noteq> Due)" for e w
    using that by (auto simp: processExecute_def)
  have "processExecute e' tid (snd (processExecute e tid w)) = (None, snd (processExecute e tid w))"
  proof (cases "findTask tid w = None \<or> (\<exists>t. findTask tid w = Some t \<and> t_status t \<noteq> Due)")
    case True
    then show ?thesis using gate [of w e] gate [of w e'] by simp
  next
    case False
    then obtain t where "findTask tid w = Some t" "t_status t = Due" by auto
    from execute_leaves_not_due [OF this, of e] show ?thesis by (intro gate) blast
  qed
  with gate show ?thesis by blast
qed


theorem execute_gate_witness:
  "findTask ''t1'' demo_world = Some demo_task \<and> t_status demo_task \<noteq> Due \<and>
   processExecute demo_env ''t1'' demo_world = (None, demo_world) \<and>
   findTask ''t2'' demo_world = None \<and>
   processExecute demo_env ''t2'' demo_world = (None, demo_world)"
proof -
  have a: "findTask ''t1'' demo_world = Some demo_task"
    by (simp add: findTask_def demo_world_def demo_task_def)
  have b: "t_status demo_task \<noteq> Due" by (simp add: demo_task_def)
  have c: "findTask ''t2'' demo_world = None"
    by (simp add: findTask_def demo_world_def demo_task_def)
  have "processExecute demo_env ''t1'' demo_world = (None, demo_world)"
    using execute_gate [of "''t1''" demo_world demo_env demo_env] a b by blast
  moreover have "processExecute demo_env ''t2'' demo_world = (None, demo_world)"
    using execute_gate [of "''t2''" demo_world demo_env demo_env] c by blast
  ultimately show ?thesis using a b c by simp
qed

section \<open>Properties of the ingest worker\<close>

lemma ingest_run:
  assumes ib: "findInbound (j_inboundId job) w = Some ib"
      and u: "findUser (j_userId job) w = Some u"
      and ex: "processIngest_extract e ib u = Inr x"
  shows "processIngest e job w =
    (if \<not> needs_clarification x \<and> truthy (due_at_iso x) \<and>
        parseDate e (the (due_at_iso x)) = None
     then (Some (ValidationFailed ''Provided Date object is invalid''), w)
     else if list_ex (\<lambda>t. sourceInboundId t = j_inboundId job) (tasks w)
     then (Some (UniqueConstraint
                   ''Unique constraint failed on the fields: (`source_inbound_id`)''), w)
     else
      (None,
       w\<lparr>tasks := tasks w @
            [\<lparr>t_userId = j_userId job, sourceInboundId = j_inboundId job,
              dueAt = (if \<not> needs_clarification x \<and> truthy (due_at_iso x)
                       then parseDate e (the (due_at_iso x)) else None),
              actionType = (if action_type x = []
                            then (case preferences u of None \<Rightarrow> ''remind_and_draft''
                                  | Some p \<Rightarrow> defaultAction p)
                            else action_type x),
              contactHint = or_null (contact_hint x), t_context = or_null (ex_context x),
              t_status = (if needs_clarification x then NeedsClarification else Pending),
              taskId = uuid (next_uuid w), attemptCount = 0, lastAttemptAt = None,
              t_updatedAt = dbNow e\<rparr>],
         next_uuid := Suc (Suc (next_uuid w)),
         task_events := task_events w @
            [\<lparr>ev_taskId = uuid (next_uuid w), ev_userId = j_userId job,
              eventType = EvCreated, ev_payload = Source ''ingest''\<rparr>,
             \<lparr>ev_taskId = uuid (next_uuid w), ev_userId = j_userId job,
              eventType = (if needs_clarification x then EvClarificationSent else EvScheduled),
              ev_payload =
                (if needs_clarification x then Question (clarifying_question x)
                 else ScheduledDueAt
                        (map_option (toISOString e)
                           (if truthy (due_at_iso x) then parseDate e (the (due_at_iso x))
                            else None)))\<rparr>],
         outbox := outbox w @
            [\<lparr>ob_taskId = Some (uuid (next_uuid w)), ob_userId = j_userId job,
              ob_channel = in_channel ib,
              payload =
                \<lparr>p_to = (if in_channel ib = ''email'' then primaryEmail u
                          else whatsappNumber u),
                 p_subject = Some (if needs_clarification x
                                   then ''Quick question about your follow-up''
                                   else ''Follow-up scheduled''),
                 p_body =
                   (if needs_clarification x then clarifying_question x
                    else ''Got it! '' @ actionLabel x @ '' on '' @
                         (case (if truthy (due_at_iso x) then parseDate e (the (due_at_iso x))
                                else None) of
                            None \<Rightarrow> ''the scheduled time''
                          | Some d \<Rightarrow>
                              toLocaleString e d
                                (case preferences u of None \<Rightarrow> ''America/New_York''
                                 | Some p \<Rightarrow> timezone p)) @
                         '' about '' @
                         (if contact_hint x = [] then ''your follow-up'' else contact_hint x) @
                         ''.'')\<rparr>,
              ob_status = Queued, outboxId = uuid (Suc (next_uuid w)), attempts = 0,
              nextRetryAt = dbNow e, ob_updatedAt = dbNow e\<rparr>],
         inbound_messages :=
            map (\<lambda>m. if inboundId m = j_inboundId job then m\<lparr>in_status := Processed\<rparr> else m)
              (inbound_messages w)\<rparr>))"
proof (cases "needs_clarification x")
  case True
  then show ?thesis
    using ib u ex
    by (simp add: processIngest_def processIngest_clarify_def createTask_def createOutbox_def
          markProcessed_def updateInbound_def findInbound_def recordTaskEvent_def Let_def)
next
  case False
  then show ?thesis
    using ib u ex
    by (simp add: processIngest_def processIngest_schedule_def createTask_def createOutbox_def
          markProcessed_def updateInbound_def findInbound_def recordTaskEvent_def Let_def)
qed

lemma ingest_absent:
  "findInbound (j_inboundId job) w = None \<or> findUser (j_userId job) w = None \<Longrightarrow>
     processIngest e job w = (None, w)"
  by (auto simp: processIngest_def split: option.splits)

lemma ingest_extract_fails:
  "findInbound (j_inboundId job) w = Some ib \<Longrightarrow> findUser (j_userId job) w = Some u \<Longrightarrow>
     processIngest_extract e ib u = Inl err \<Longrightarrow> processIngest e job w = (Some err, w)"
  by (simp add: processIngest_def Let_def)

text \<open>What one run of the ingest worker can do to the task table.\<close>

lemma ingest_tasks:
  "tasks (snd (processIngest e job w)) = tasks w \<or>
   (\<exists>t. tasks (snd (processIngest e job w)) = tasks w @ [t] \<and>
        sourceInboundId t = j_inboundId job \<and>
        (t_status t = NeedsClarification \<longrightarrow> dueAt t = None) \<and>
        \<not> list_ex (\<lambda>s. sourceInboundId s = j_inboundId job) (tasks w))"
proof (cases "findInbound (j_inboundId job) w")
  case None
  then show ?thesis by (simp add: ingest_absent)
next
  case (Some ib)
  show ?thesis
  proof (cases "findUser (j_userId job) w")
    case None
    then show ?thesis by (simp add: ingest_absent)
  next
    case u: (Some u)
    show ?thesis
    proof (cases "processIngest_extract e ib u")
      case (Inl err)
      then show ?thesis using Some u by (simp add: ingest_extract_fails)
    next
      case (Inr x)
      show ?thesis unfolding ingest_run [OF Some u Inr] by simp
    qed
  qed
qed

lemma ingest_refused:
  assumes ib: "findInbound (j_inboundId job) w = Some ib"
      and u: "findUser (j_userId job) w = Some u"
      and ex: "list_ex (\<lambda>t. sourceInboundId t = j_inboundId job) (tasks w)"
  shows "fst (processIngest e job w) \<noteq> None \<and> snd (processIngest e job w) = w"
proof (cases "processIngest_extract e ib u")
  case (Inl err)
  then show ?thesis using ib u by (simp add: ingest_extract_fails)
next
  case (Inr x)
  show ?thesis unfolding ingest_run [OF ib u Inr] using ex by simp
qed

lemma ingest_keeps_sources_distinct:
  assumes d: "distinct (map sourceInboundId (tasks w))"
  shows "distinct (map sourceInboundId (tasks (snd (processIngest e job w))))"
proof -
  from ingest_tasks [of e job w] show ?thesis
  proof
    assume "tasks (snd (processIngest e job w)) = tasks w"
    then show ?thesis using d by simp
  next
    assume "\<exists>t. tasks (snd (processIngest e job w)) = tasks w @ [t] \<and>
        sourceInboundId t = j_inboundId job \<and>
        (t_status t = NeedsClarification \<longrightarrow> dueAt t = None) \<and>
        \<not> list_ex (\<lambda>s. sourceInboundId s = j_inboundId job) (tasks w)"
    then obtain t where t: "tasks (snd (processIngest e job w)) = tasks w @ [t]"
      "sourceInboundId t = j_inboundId job"
      "\<not> list_ex (\<lambda>s. sourceInboundId s = j_inboundId job) (tasks w)"
      by blast
    from t(3) have "j_inboundId job \<notin> sourceInboundId ` set (tasks w)"
      by (auto simp: list_ex_iff)
    then show ?thesis using t(1,2) d by simp
  qed
qed

lemmas ingest_sample_defs =
  ingest_world_def first_inbound_def first_job_def alice_def dated_extraction_def

lemma dated_run:
  "processIngest dated_env first_job ingest_world =
     (None,
      ingest_world
       \<lparr>tasks :=
          [\<lparr>t_userId = ''u1'', sourceInboundId = ''i1'', dueAt = Some 2000,
            actionType = ''remind'', contactHint = Some ''Dr. Smith'',
            t_context = Some ''test results'', t_status = Pending, taskId = uuid 0,
            attemptCount = 0, lastAttemptAt = None, t_updatedAt = 1001\<rparr>],
        next_uuid := 2,
        task_events :=
          [\<lparr>ev_taskId = uuid 0, ev_userId = ''u1'', eventType = EvCreated,
            ev_payload = Source ''ingest''\<rparr>,
           \<lparr>ev_taskId = uuid 0, ev_userId = ''u1'', eventType = EvScheduled,
            ev_payload = ScheduledDueAt (Some ''2025-01-01T10:00:00.000Z'')\<rparr>],
        outbox :=
          [\<lparr>ob_taskId = Some (uuid 0), ob_userId = ''u1'', ob_channel = ''email'',
            payload =
              \<lparr>p_to = Some ''alice@example.com'', p_subject = Some ''Follow-up scheduled'',
               p_body = ''Got it! I'll remind you on Wednesday, January 1 at 10:00 AM about Dr. Smith.''\<rparr>,
            ob_status = Queued, outboxId = uuid 1, attempts = 0, nextRetryAt = 1001,
            ob_updatedAt = 1001\<rparr>],
        inbound_messages := [first_inbound\<lparr>in_status := Processed\<rparr>]\<rparr>)"
proof -
  have ib: "findInbound (j_inboundId first_job) ingest_world = Some first_inbound"
    by (simp add: findInbound_def ingest_sample_defs)
  have u: "findUser (j_userId first_job) ingest_world = Some alice"
    by (simp add: findUser_def ingest_sample_defs)
  have x: "processIngest_extract dated_env first_inbound alice = Inr dated_extraction"
    by (simp add: processIngest_extract_def dated_env_def)
  show ?thesis
    unfolding ingest_run [OF ib u x]
    by (simp add: ingest_sample_defs dated_env_def demo_env_def or_null_def actionLabel_def)
qed

lemma sample_lookups:
  "findInbound (j_inboundId first_job) ingest_world = Some first_inbound"
  "findUser (j_userId first_job) ingest_world = Some alice"
  by (simp_all add: findInbound_def findUser_def ingest_sample_defs)

lemma dated_rerun:
  "processIngest e first_job (snd (processIngest dated_env first_job ingest_world)) =
     (fst (processIngest e first_job (snd (processIngest dated_env first_job ingest_world))),
      snd (processIngest dated_env first_job ingest_world)) \<and>
   fst (processIngest dated_env first_job (snd (processIngest dated_env first_job ingest_world))) =
     Some (UniqueConstraint ''Unique constraint failed on the fields: (`source_inbound_id`)'')"
proof -
  let ?w1 = "snd (processIngest dated_env first_job ingest_world)"
  have ib: "findInbound (j_inboundId first_job) ?w1 = Some (first_inbound\<lparr>in_status := Processed\<rparr>)"
    unfolding dated_run by (simp add: findInbound_def first_job_def first_inbound_def)
  have u: "findUser (j_userId first_job) ?w1 = Some alice"
    unfolding dated_run by (simp add: findUser_def ingest_sample_defs)
  have ex: "list_ex (\<lambda>t. sourceInboundId t = j_inboundId first_job) (tasks ?w1)"
    unfolding dated_run by (simp add: first_job_def)
  have x: "processIngest_extract dated_env (first_inbound\<lparr>in_status := Processed\<rparr>) alice =
             Inr dated_extraction"
    by (simp add: processIngest_extract_def dated_env_def)
  have "snd (processIngest e first_job ?w1) = ?w1"
    using ingest_refused [OF ib u ex] by simp
  then have a: "processIngest e first_job ?w1 = (fst (processIngest e first_job ?w1), ?w1)"
    by (metis prod.collapse)
  have b: "fst (processIngest dated_env first_job ?w1) =
     Some (UniqueConstraint ''Unique constraint failed on the fields: (`source_inbound_id`)'')"
    unfolding ingest_run [OF ib u x] using ex
    by (simp add: dated_extraction_def dated_env_def)
  from a b show ?thesis by (intro conjI)
qed

text \<open>
  One run of the ingest worker writes nothing, or it creates one task for the inbound
  message, which had none, and one queued outbox row for that task and sets the inbound
  row to \<open>processed\<close>.
\<close>

lemma ingest_atomic:
  "snd (processIngest e job w) = w \<or>
   (\<exists>t row. fst (processIngest e job w) = None \<and>
      \<not> list_ex (\<lambda>s. sourceInboundId s = j_inboundId job) (tasks w) \<and>
      tasks (snd (processIngest e job w)) = tasks w @ [t] \<and>
      sourceInboundId t = j_inboundId job \<and>
      outbox (snd (processIngest e job w)) = outbox w @ [row] \<and>
      ob_taskId row = Some (taskId t) \<and> ob_status row = Queued \<and>
      inbound_messages (snd (processIngest e job w)) =
        map (\<lambda>m. if inboundId m = j_inboundId job then m\<lparr>in_status := Processed\<rparr> else m)
          (inbound_messages w))"
proof (cases "findInbound (j_inboundId job) w")
  case None
  then show ?thesis by (simp add: ingest_absent)
next
  case (Some ib)
  show ?thesis
  proof (cases "findUser (j_userId job) w")
    case None
    then show ?thesis by (simp add: ingest_absent)
  next
    case u: (Some u)
    show ?thesis
    proof (cases "processIngest_extract e ib u")
      case (Inl err)
      then show ?thesis using Some u by (simp add: ingest_extract_fails)
    next
      case (Inr x)
      show ?thesis unfolding ingest_run [OF Some u Inr] by simp
    qed
  qed
qed
section \<open>Properties of the e-mail webhook\<close>

lemma webhook_lookup:
  assumes "validateEmailWebhook e req = None" "emailBodySchema e (body req) = Some p"
  shows "emailRoutes_lookup e req w =
     (case findUserByEmail (e_from p) w of
        None \<Rightarrow> Respond (200, Ignored ''unknown_sender'')
      | Some u \<Rightarrow>
         (case findInboundByKey (userId u @ '':'' @ messageId p) w of
            Some _ \<Rightarrow> Respond (200, Duplicate)
          | None \<Rightarrow> Insert u p (userId u @ '':'' @ messageId p)))"
  using assms by (simp add: emailRoutes_lookup_def Let_def split: option.splits)

lemma webhook_insert_fresh:
  assumes "findInboundByKey key w = None"
  shows "emailRoutes_insert u p key w =
     ((200, Accepted (uuid (next_uuid w))),
      w\<lparr>inbound_messages := inbound_messages w @
           [\<lparr>inboundId = uuid (next_uuid w), in_userId = userId u, in_channel = ''email'',
             providerMessageId = messageId p, idempotencyKey = key,
             rawTextRedacted = Some (e_subject p @ [CHR 0x0A] @ textBody p),
             in_status = Received\<rparr>],
         next_uuid := Suc (next_uuid w),
         ingest_queue := ingest_queue w @
           [(key, \<lparr>j_inboundId = uuid (next_uuid w), j_userId = userId u\<rparr>)]\<rparr>)"
proof -
  have "\<not> list_ex (\<lambda>m. idempotencyKey m = key) (inbound_messages w)"
    using assms by (auto simp: findInboundByKey_def find_None_iff list_ex_iff)
  then show ?thesis
    by (simp add: emailRoutes_insert_def createInbound_def Let_def)
qed

lemma webhook_insert_conflict:
  assumes "list_ex (\<lambda>m. idempotencyKey m = key) (inbound_messages w)"
  shows "emailRoutes_insert u p key w =
     ((500, ErrorReply ''INTERNAL_ERROR'' ''Internal server error''), w)"
  using assms by (simp add: emailRoutes_insert_def createInbound_def)

text \<open>
  C8 (amended). For a request that passes the signature check and the schema: when no
  user has the sender as primary e-mail the response is 200 \<open>ignored\<close> and nothing is
  written; when a row with the key \<open>user_id:messageId\<close> exists the response is 200
  \<open>duplicate\<close> and nothing is written; otherwise one row with that key and status
  \<open>received\<close> is inserted, one ingest job with the key as its job id is enqueued, and the
  response is 200 \<open>accepted\<close> with the key of the new row. When the insert itself meets a
  row with the key (one inserted by another request after the look-up), it throws: the
  response is 500 and nothing is written.
\<close>

theorem email_webhook_outcomes:
  "(validateEmailWebhook e req = None \<and> emailBodySchema e (body req) = Some p \<and>
    findUserByEmail (e_from p) w = None
    \<longrightarrow> emailRoutes e req w = ((200, Ignored ''unknown_sender''), w))
   \<and>
   (validateEmailWebhook e req = None \<and> emailBodySchema e (body req) = Some p \<and>
    findUserByEmail (e_from p) w = Some u \<and>
    findInboundByKey (userId u @ '':'' @ messageId p) w = Some existing
    \<longrightarrow> emailRoutes e req w = ((200, Duplicate), w))
   \<and>
   (validateEmailWebhook e req = None \<and> emailBodySchema e (body req) = Some p \<and>
    findUserByEmail (e_from p) w = Some u \<and>
    findInboundByKey (userId u @ '':'' @ messageId p) w = None
    \<longrightarrow>
    emailRoutes e req w =
     ((200, Accepted (uuid (next_uuid w))),
      w\<lparr>inbound_messages := inbound_messages w @
           [\<lparr>inboundId = uuid (next_uuid w), in_userId = userId u, in_channel = ''email'',
             providerMessageId = messageId p,
             idempotencyKey = userId u @ '':'' @ messageId p,
             rawTextRedacted = Some (e_subject p @ [CHR 0x0A] @ textBody p),
             in_status = Received\<rparr>],
         next_uuid := Suc (next_uuid w),
         ingest_queue := ingest_queue w @
           [(userId u @ '':'' @ messageId p,
             \<lparr>j_inboundId = uuid (next_uuid w), j_userId = userId u\<rparr>)]\<rparr>))
   \<and>
   (list_ex (\<lambda>m. idempotencyKey m = key) (inbound_messages w)
    \<longrightarrow>
    emailRoutes_insert u p key w =
      ((500, ErrorReply ''INTERNAL_ERROR'' ''Internal server error''), w))"
proof -
  have p1: "validateEmailWebhook e req = None \<and> emailBodySchema e (body req) = Some p \<and>
    findUserByEmail (e_from p) w = None
    \<longrightarrow> emailRoutes e req w = ((200, Ignored ''unknown_sender''), w)"
    by (simp add: emailRoutes_def webhook_lookup)
  have p2: "validateEmailWebhook e req = None \<and> emailBodySchema e (body req) = Some p \<and>
    findUserByEmail (e_from p) w = Some u \<and>
    findInboundByKey (userId u @ '':'' @ messageId p) w = Some existing
    \<longrightarrow> emailRoutes e req w = ((200, Duplicate), w)"
    by (simp add: emailRoutes_def webhook_lookup)
  have p3: "validateEmailWebhook e req = None \<and> emailBodySchema e (body req) = Some p \<and>
    findUserByEmail (e_from p) w = Some u \<and>
    findInboundByKey (userId u @ '':'' @ messageId p) w = None
    \<longrightarrow>
    emailRoutes e req w =
     ((200, Accepted (uuid (next_uuid w))),
      w\<lparr>inbound_messages := inbound_messages w @
           [\<lparr>inboundId = uuid (next_uuid w), in_userId = userId u, in_channel = ''email'',
             providerMessageId = messageId p,
             idempotencyKey = userId u @ '':'' @ messageId p,
             rawTextRedacted = Some (e_subject p @ [CHR 0x0A] @ textBody p),
             in_status = Received\<rparr>],
         next_uuid := Suc (next_uuid w),
         ingest_queue := ingest_queue w @
           [(userId u @ '':'' @ messageId p,
             \<lparr>j_inboundId = uuid (next_uuid w), j_userId = userId u\<rparr>)]\<rparr>)"
    by (simp add: emailRoutes_def webhook_lookup webhook_insert_fresh)
  have p4: "list_ex (\<lambda>m. idempotencyKey m = key) (inbound_messages w)
    \<longrightarrow>
    emailRoutes_insert u p key w =
      ((500, ErrorReply ''INTERNAL_ERROR'' ''Internal server error''), w)"
    by (simp add: webhook_insert_conflict)
  from p1 p2 p3 p4 show ?thesis by (intro conjI)
qed

lemmas webhook_sample_defs =
  first_request_def first_payload_def webhook_world_def ingest_world_def alice_def

lemma first_request_valid:
  "validateEmailWebhook demo_env first_request = None"
  "emailBodySchema demo_env (body first_request) = Some first_payload"
  by (simp_all add: validateEmailWebhook_def emailBodySchema_def demo_env_def
        first_request_def first_payload_def)

lemma first_request_lookup:
  "findUserByEmail (e_from first_payload) webhook_world = Some alice"
  "findInboundByKey (userId alice @ '':'' @ messageId first_payload) webhook_world = None"
  by (simp_all add: findUserByEmail_def findInboundByKey_def webhook_sample_defs)

lemma first_request_accepted:
  "emailRoutes demo_env first_request webhook_world =
     ((200, Accepted (uuid 0)),
      webhook_world
       \<lparr>inbound_messages :=
          [\<lparr>inboundId = uuid 0, in_userId = ''u1'', in_channel = ''email'',
            providerMessageId = ''msg-1'', idempotencyKey = ''u1:msg-1'',
            rawTextRedacted =
              Some (''Follow up'' @ [CHR 0x0A] @ ''Follow up with Dr. Smith next Friday''),
            in_status = Received\<rparr>],
        next_uuid := 1,
        ingest_queue := [(''u1:msg-1'', \<lparr>j_inboundId = uuid 0, j_userId = ''u1''\<rparr>)]\<rparr>)"
  using first_request_valid first_request_lookup
  by (simp add: emailRoutes_def webhook_lookup webhook_insert_fresh)
     (simp add: webhook_sample_defs)

text \<open>
  C8 as stated fails in its parenthesis: a request whose look-up found no row, and whose
  insert runs after another request with the same message has been accepted, is answered
  with 500 \<open>INTERNAL_ERROR\<close>, not with \<open>duplicate\<close>.
\<close>

theorem insert_conflict_counterexample:
  "emailRoutes_lookup demo_env first_request webhook_world =
     Insert alice first_payload ''u1:msg-1'' \<and>
   fst (emailRoutes demo_env first_request webhook_world) = (200, Accepted (uuid 0)) \<and>
   emailRoutes_insert alice first_payload ''u1:msg-1''
     (snd (emailRoutes demo_env first_request webhook_world)) =
     ((500, ErrorReply ''INTERNAL_ERROR'' ''Internal server error''),
      snd (emailRoutes demo_env first_request webhook_world))"
proof -
  have a: "emailRoutes_lookup demo_env first_request webhook_world =
     Insert alice first_payload ''u1:msg-1''"
    using first_request_lookup
    by (simp add: webhook_lookup [OF first_request_valid]) (simp add: alice_def first_payload_def)
  have b: "fst (emailRoutes demo_env first_request webhook_world) = (200, Accepted (uuid 0))"
    by (simp add: first_request_accepted)
  have "list_ex (\<lambda>m. idempotencyKey m = ''u1:msg-1'')
          (inbound_messages (snd (emailRoutes demo_env first_request webhook_world)))"
    by (simp add: first_request_accepted)
  then have c: "emailRoutes_insert alice first_payload ''u1:msg-1''
     (snd (emailRoutes demo_env first_request webhook_world)) =
     ((500, ErrorReply ''INTERNAL_ERROR'' ''Internal server error''),
      snd (emailRoutes demo_env first_request webhook_world))"
    by (rule webhook_insert_conflict)
  from a b c show ?thesis by (intro conjI)
qed

theorem email_webhook_outcomes_witness:
  "validateEmailWebhook demo_env first_request = None \<and>
   emailBodySchema demo_env (body first_request) = Some first_payload \<and>
   emailRoutes demo_env first_request (webhook_world\<lparr>users := []\<rparr>) =
     ((200, Ignored ''unknown_sender''), webhook_world\<lparr>users := []\<rparr>) \<and>
   emailRoutes demo_env first_request ingest_world = ((200, Duplicate), ingest_world) \<and>
   fst (emailRoutes demo_env first_request webhook_world) = (200, Accepted (uuid 0)) \<and>
   map (\<lambda>m. (idempotencyKey m, in_status m))
     (inbound_messages (snd (emailRoutes demo_env first_request webhook_world))) =
     [(''u1:msg-1'', Received)] \<and>
   ingest_queue (snd (emailRoutes demo_env first_request webhook_world)) =
     [(''u1:msg-1'', \<lparr>j_inboundId = uuid 0, j_userId = ''u1''\<rparr>)] \<and>
   emailRoutes_insert alice first_payload ''u1:msg-1'' ingest_world =
     ((500, ErrorReply ''INTERNAL_ERROR'' ''Internal server error''), ingest_world)"
proof -
  note v = first_request_valid
  have q1: "emailRoutes demo_env first_request (webhook_world\<lparr>users := []\<rparr>) =
     ((200, Ignored ''unknown_sender''), webhook_world\<lparr>users := []\<rparr>)"
  proof -
    have "findUserByEmail (e_from first_payload) (webhook_world\<lparr>users := []\<rparr>) = None"
      by (simp add: findUserByEmail_def)
    with email_webhook_outcomes [where e = demo_env and req = first_request
        and p = first_payload and w = "webhook_world\<lparr>users := []\<rparr>", THEN conjunct1] v
    show ?thesis by blast
  qed
  have q2: "emailRoutes demo_env first_request ingest_world = ((200, Duplicate), ingest_world)"
  proof -
    have "findUserByEmail (e_from first_payload) ingest_world = Some alice"
      "findInboundByKey (userId alice @ '':'' @ messageId first_payload) ingest_world =
         Some first_inbound"
      by (simp_all add: findUserByEmail_def findInboundByKey_def webhook_sample_defs
            first_inbound_def)
    with email_webhook_outcomes [where e = demo_env and req = first_request
        and p = first_payload and w = ingest_world and u = alice and existing = first_inbound,
        THEN conjunct2, THEN conjunct1] v
    show ?thesis by blast
  qed
  have q3: "emailRoutes demo_env first_request webhook_world =
     ((200, Accepted (uuid (next_uuid webhook_world))),
      webhook_world\<lparr>inbound_messages := inbound_messages webhook_world @
           [\<lparr>inboundId = uuid (next_uuid webhook_world), in_userId = userId alice,
             in_channel = ''email'', providerMessageId = messageId first_payload,
             idempotencyKey = userId alice @ '':'' @ messageId first_payload,
             rawTextRedacted = Some (e_subject first_payload @ [CHR 0x0A] @ textBody first_payload),
             in_status = Received\<rparr>],
         next_uuid := Suc (next_uuid webhook_world),
         ingest_queue := ingest_queue webhook_world @
           [(userId alice @ '':'' @ messageId first_payload,
             \<lparr>j_inboundId = uuid (next_uuid webhook_world), j_userId = userId alice\<rparr>)]\<rparr>)"
    using email_webhook_outcomes [where e = demo_env and req = first_request
        and p = first_payload and w = webhook_world and u = alice,
        THEN conjunct2, THEN conjunct2, THEN conjunct1] v first_request_lookup
    by blast
  have q4: "emailRoutes_insert alice first_payload ''u1:msg-1'' ingest_world =
     ((500, ErrorReply ''INTERNAL_ERROR'' ''Internal server error''), ingest_world)"
  proof -
    have "list_ex (\<lambda>m. idempotencyKey m = ''u1:msg-1'') (inbound_messages ingest_world)"
      by (simp add: ingest_world_def first_inbound_def)
    with email_webhook_outcomes [where w = ingest_world and key = "''u1:msg-1''"
        and u = alice and p = first_payload,
        THEN conjunct2, THEN conjunct2, THEN conjunct2]
    show ?thesis by blast
  qed
  have q3a: "fst (emailRoutes demo_env first_request webhook_world) = (200, Accepted (uuid 0))"
    unfolding q3 by (simp add: webhook_sample_defs)
  have q3b: "map (\<lambda>m. (idempotencyKey m, in_status m))
     (inbound_messages (snd (emailRoutes demo_env first_request webhook_world))) =
     [(''u1:msg-1'', Received)]"
    unfolding q3 by (simp add: webhook_sample_defs)
  have q3c: "ingest_queue (snd (emailRoutes demo_env first_request webhook_world)) =
     [(''u1:msg-1'', \<lparr>j_inboundId = uuid 0, j_userId = ''u1''\<rparr>)]"
    unfolding q3 by (simp add: webhook_sample_defs)
  from v q1 q2 q3a q3b q3c q4 show ?thesis by (intro conjI)
qed

section \<open>What the pipeline keeps\<close>

lemma ok_map_upd:
  "list_all clar_ok xs \<Longrightarrow> (\<And>t. clar_ok t \<Longrightarrow> clar_ok (f t)) \<Longrightarrow>
     list_all clar_ok (map (\<lambda>t. if taskId t = i then f t else t) xs)"
  by (induction xs) auto

lemma ok_updateTask:
  "list_all clar_ok (tasks w) \<Longrightarrow> updateTask i f w = Inr w' \<Longrightarrow>
     (\<And>t. clar_ok t \<Longrightarrow> clar_ok (f t)) \<Longrightarrow> list_all clar_ok (tasks w')"
  by (auto simp: updateTask_Inr ok_map_upd)

lemma ok_status [simp]:
  "s \<noteq> NeedsClarification \<Longrightarrow> clar_ok (t\<lparr>t_status := s\<rparr>)"
  by (simp add: clar_ok_def)

lemma tasks_updateOutbox: "updateOutbox i f w = Inr w' \<Longrightarrow> tasks w' = tasks w"
  by (auto simp: updateOutbox_Inr)

lemma tasks_recordTaskEvent [simp]: "tasks (recordTaskEvent t u ty p w) = tasks w"
  by (simp add: recordTaskEvent_def)

lemma tasks_createOutbox [simp]: "tasks (snd (createOutbox e d w)) = tasks w"
  by (simp add: createOutbox_def Let_def)

lemma ok_finish:
  assumes "list_all clar_ok (tasks w)"
  shows "list_all clar_ok (tasks (snd (processExecute_finish e t ch rc sb bd w)))"
proof -
  let ?c = "createOutbox e
            \<lparr>ob_taskId = Some (taskId t), ob_userId = t_userId t, ob_channel = ch,
             payload = \<lparr>p_to = rc, p_subject = Some sb, p_body = bd\<rparr>,
             ob_status = Queued\<rparr> w"
  have c: "list_all clar_ok (tasks (snd ?c))" using assms by simp
  show ?thesis
  proof (cases "updateTask (taskId t) (\<lambda>x. x\<lparr>t_status := Sending\<rparr>) (snd ?c)")
    case (Inl err)
    then show ?thesis using c by (simp add: processExecute_finish_def split_def)
  next
    case (Inr w2)
    have "list_all clar_ok (tasks w2)" using ok_updateTask [OF c Inr] by simp
    then show ?thesis using Inr by (simp add: processExecute_finish_def split_def)
  qed
qed

lemma ok_execute:
  assumes ok: "list_all clar_ok (tasks w)"
  shows "list_all clar_ok (tasks (snd (processExecute e tid w)))"
proof (cases "findTask tid w")
  case None
  then show ?thesis using ok by (simp add: processExecute_def)
next
  case (Some t)
  show ?thesis
  proof (cases "t_status t = Due")
    case False
    then show ?thesis using ok Some by (simp add: processExecute_def)
  next
    case True
    let ?f = "\<lambda>x. x\<lparr>t_status := Executing, lastAttemptAt := Some (jsNow e),
                         attemptCount := attemptCount x + 1\<rparr>"
    obtain w1 where u: "updateTask tid ?f w = Inr w1" using Some by (simp add: updateTask_def)
    have ok1: "list_all clar_ok (tasks w1)"
      using ok_updateTask [OF ok u] by (simp add: clar_ok_def)
    let ?w2 = "recordTaskEvent tid (t_userId t) EvExecuting NoPayload w1"
    have ok2: "list_all clar_ok (tasks ?w2)" using ok1 by simp
    show ?thesis
    proof (cases "findUser (t_userId t) w")
      case None
      then show ?thesis using Some True u ok2 by (simp add: processExecute_def Let_def)
    next
      case usr: (Some usr)
      show ?thesis
      proof (cases "actionType t = ''remind''")
        case True
        then show ?thesis using Some \<open>t_status t = Due\<close> u usr ok_finish [OF ok2]
          by (simp add: processExecute_def Let_def)
      next
        case False
        show ?thesis
        proof (cases "draftFollowUp e (or_default (contactHint t) ''the contact'')
                               (or_default (t_context t) ''a follow-up'')
                               (case preferences usr of None \<Rightarrow> ''friendly'' | Some p \<Rightarrow> tone p)")
          case (Inl err)
          then show ?thesis using Some True u usr False ok2
            by (simp add: processExecute_def Let_def)
        next
          case (Inr d)
          have "list_all clar_ok
                  (tasks (recordTaskEvent tid (t_userId t) EvDraftGenerated (Draft d) ?w2))"
            using ok2 by simp
          from ok_finish [OF this] show ?thesis using Some True u usr False Inr
            by (simp add: processExecute_def Let_def)
        qed
      qed
    qed
  qed
qed

lemma ok_try:
  assumes ok: "list_all clar_ok (tasks w)"
  shows "list_all clar_ok (tasks (snd (pollOutbox_try e msg w)))"
  using ok unfolding pollOutbox_try_def
  by (auto simp: Let_def updateOutbox_Inr updateTask_Inr ok_map_upd
           split: option.splits sum.splits prod.splits)

lemma ok_catch:
  assumes ok: "list_all clar_ok (tasks w)"
  shows "list_all clar_ok (tasks (snd (pollOutbox_catch e msg err w)))"
  using ok unfolding pollOutbox_catch_def
  by (auto simp: Let_def updateOutbox_Inr updateTask_Inr ok_map_upd
           split: option.splits sum.splits prod.splits)

lemma ok_step:
  assumes ok: "list_all clar_ok (tasks w)"
  shows "list_all clar_ok (tasks (snd (pollOutbox_step e msg w)))"
proof (cases "pollOutbox_try e msg w")
  case (Pair r w1)
  have "list_all clar_ok (tasks w1)" using ok_try [OF ok, of e msg] Pair by simp
  then show ?thesis using Pair ok_catch [of w1 e msg]
    by (cases r) (simp_all add: pollOutbox_step_def)
qed

lemma ok_loop:
  "list_all clar_ok (tasks w) \<Longrightarrow> list_all clar_ok (tasks (snd (pollOutbox_loop e msgs w)))"
proof (induction msgs arbitrary: w)
  case Nil
  then show ?case by simp
next
  case (Cons msg msgs)
  show ?case
  proof (cases "pollOutbox_step e msg w")
    case (Pair x w1)
    have "list_all clar_ok (tasks w1)" using ok_step [OF Cons.prems, of e msg] Pair by simp
    then show ?thesis using Pair Cons.IH [of w1] by (cases x) simp_all
  qed
qed

lemma tasks_claimOutbox [simp]: "tasks (snd (claimOutbox e w)) = tasks w"
  by (simp add: claimOutbox_def Let_def)

lemma ok_poll:
  assumes ok: "list_all clar_ok (tasks w)"
  shows "list_all clar_ok (tasks (snd (pollOutbox e w)))"
proof (cases "claimOutbox e w")
  case (Pair msgs w1)
  have "list_all clar_ok (tasks w1)" using ok tasks_claimOutbox [of e w] Pair by simp
  then show ?thesis using Pair ok_loop [of w1 e msgs] by (simp add: pollOutbox_def)
qed

lemma ok_tick:
  assumes ok: "list_all clar_ok (tasks w)"
  shows "list_all clar_ok (tasks (tick e w))"
proof -
  have "list_all clar_ok (map (\<lambda>t. if taskId t \<in> A then t\<lparr>t_status := Due, t_updatedAt := d\<rparr> else t) xs)"
    if "list_all clar_ok xs" for A d xs
    using that by (induction xs) (auto simp: clar_ok_def)
  then show ?thesis using ok by (simp add: tick_tasks claimed_tasks)
qed

lemma tasks_emailRoutes: "tasks (snd (emailRoutes e req w)) = tasks w"
  by (auto simp: emailRoutes_def emailRoutes_insert_def createInbound_def Let_def
           split: lookup.splits sum.splits prod.splits if_splits)

lemma ok_ingest:
  assumes ok: "list_all clar_ok (tasks w)"
  shows "list_all clar_ok (tasks (snd (processIngest e job w)))"
  using ingest_tasks [of e job w] ok by (auto simp: clar_ok_def)

lemma ok_run_op: "list_all clar_ok (tasks w) \<Longrightarrow> list_all clar_ok (tasks (run_op x w))"
  by (cases x) (simp_all add: tasks_emailRoutes ok_ingest ok_tick ok_execute ok_poll)

lemma ok_pipeline: "list_all clar_ok (tasks w) \<Longrightarrow> list_all clar_ok (tasks (pipeline xs w))"
  by (induction xs arbitrary: w) (simp_all add: ok_run_op)

text \<open>
  C7 (amended). A task the ingest worker creates is \<open>needs_clarification\<close> with
  \<open>due_at\<close> \<open>NULL\<close> when the extraction needs clarification; otherwise it is \<open>pending\<close>, with
  \<open>due_at\<close> the instant parsed from \<open>due_at_iso\<close> when that is given and with \<open>due_at\<close>
  \<open>NULL\<close> when \<open>due_at_iso\<close> is \<open>null\<close> or empty. And through every run of the pipeline each
  task that is \<open>needs_clarification\<close> has \<open>due_at\<close> \<open>NULL\<close>; the converse does not hold.
\<close>

theorem ingest_task_status_and_due:
  "(findInbound (j_inboundId job) w = Some ib \<and> findUser (j_userId job) w = Some u \<and>
    processIngest_extract e ib u = Inr x \<and> processIngest e job w = (None, w')
    \<longrightarrow>
    (\<exists>t. tasks w' = tasks w @ [t] \<and>
         (if needs_clarification x then t_status t = NeedsClarification \<and> dueAt t = None
          else t_status t = Pending \<and>
               (if truthy (due_at_iso x)
                then \<exists>d. parseDate e (the (due_at_iso x)) = Some d \<and> dueAt t = Some d
                else dueAt t = None))))
   \<and>
   ((\<forall>t\<in>set (tasks v). t_status t = NeedsClarification \<longrightarrow> dueAt t = None)
    \<longrightarrow>
    (\<forall>t\<in>set (tasks (pipeline ops v)). t_status t = NeedsClarification \<longrightarrow> dueAt t = None))"
proof (intro conjI impI)
  assume h: "findInbound (j_inboundId job) w = Some ib \<and> findUser (j_userId job) w = Some u \<and>
    processIngest_extract e ib u = Inr x \<and> processIngest e job w = (None, w')"
  then have ib: "findInbound (j_inboundId job) w = Some ib"
    and u: "findUser (j_userId job) w = Some u"
    and x: "processIngest_extract e ib u = Inr x"
    and r: "processIngest e job w = (None, w')" by simp_all
  have valid: "\<not> (\<not> needs_clarification x \<and> truthy (due_at_iso x) \<and>
        parseDate e (the (due_at_iso x)) = None)"
    using r unfolding ingest_run [OF ib u x] by (auto split: if_splits)
  have "tasks w' = tasks w @
            [\<lparr>t_userId = j_userId job, sourceInboundId = j_inboundId job,
              dueAt = (if \<not> needs_clarification x \<and> truthy (due_at_iso x)
                       then parseDate e (the (due_at_iso x)) else None),
              actionType = (if action_type x = []
                            then (case preferences u of None \<Rightarrow> ''remind_and_draft''
                                  | Some p \<Rightarrow> defaultAction p)
                            else action_type x),
              contactHint = or_null (contact_hint x), t_context = or_null (ex_context x),
              t_status = (if needs_clarification x then NeedsClarification else Pending),
              taskId = uuid (next_uuid w), attemptCount = 0, lastAttemptAt = None,
              t_updatedAt = dbNow e\<rparr>]"
    using r unfolding ingest_run [OF ib u x] by (auto split: if_splits)
  then show "\<exists>t. tasks w' = tasks w @ [t] \<and>
         (if needs_clarification x then t_status t = NeedsClarification \<and> dueAt t = None
          else t_status t = Pending \<and>
               (if truthy (due_at_iso x)
                then \<exists>d. parseDate e (the (due_at_iso x)) = Some d \<and> dueAt t = Some d
                else dueAt t = None))"
    using valid by auto
next
  assume "\<forall>t\<in>set (tasks v). t_status t = NeedsClarification \<longrightarrow> dueAt t = None"
  then have "list_all clar_ok (tasks v)" by (auto simp: list_all_iff clar_ok_def)
  then have "list_all clar_ok (tasks (pipeline ops v))" by (rule ok_pipeline)
  then show "\<forall>t\<in>set (tasks (pipeline ops v)). t_status t = NeedsClarification \<longrightarrow> dueAt t = None"
    by (auto simp: list_all_iff clar_ok_def)
qed

theorem ingest_task_status_and_due_witness:
  "findInbound (j_inboundId first_job) ingest_world = Some first_inbound \<and>
   findUser (j_userId first_job) ingest_world = Some alice \<and>
   processIngest_extract dated_env first_inbound alice = Inr dated_extraction \<and>
   fst (processIngest dated_env first_job ingest_world) = None \<and>
   (\<exists>t. tasks (snd (processIngest dated_env first_job ingest_world)) = [t] \<and>
        t_status t = Pending \<and> dueAt t = Some 2000) \<and>
   list_all clar_ok (tasks (pipeline [Ingest asking_env first_job, Poll demo_env] ingest_world))"
proof -
  let ?w' = "snd (processIngest dated_env first_job ingest_world)"
  have x: "processIngest_extract dated_env first_inbound alice = Inr dated_extraction"
    by (simp add: processIngest_extract_def dated_env_def)
  have r: "processIngest dated_env first_job ingest_world = (None, ?w')"
    by (simp add: dated_run)
  note t = ingest_task_status_and_due [where job = first_job and w = ingest_world
      and ib = first_inbound and u = alice and e = dated_env and x = dated_extraction
      and w' = ?w' and v = ingest_world
      and ops = "[Ingest asking_env first_job, Poll demo_env]"]
  have a: "\<exists>t. tasks ?w' = tasks ingest_world @ [t] \<and>
         (if needs_clarification dated_extraction
          then t_status t = NeedsClarification \<and> dueAt t = None
          else t_status t = Pending \<and>
               (if truthy (due_at_iso dated_extraction)
                then \<exists>d. parseDate dated_env (the (due_at_iso dated_extraction)) = Some d \<and>
                         dueAt t = Some d
                else dueAt t = None))"
    using t [THEN conjunct1] sample_lookups x r by (rule_tac mp) (assumption, intro conjI)
  then have a': "\<exists>t. tasks ?w' = [t] \<and> t_status t = Pending \<and> dueAt t = Some 2000"
    by (simp add: dated_extraction_def dated_env_def ingest_world_def)
  have "\<forall>t\<in>set (tasks ingest_world). t_status t = NeedsClarification \<longrightarrow> dueAt t = None"
    by (simp add: ingest_world_def)
  with t [THEN conjunct2]
  have "\<forall>t\<in>set (tasks (pipeline [Ingest asking_env first_job, Poll demo_env] ingest_world)).
          t_status t = NeedsClarification \<longrightarrow> dueAt t = None"
    by (rule mp)
  then have b: "list_all clar_ok
                  (tasks (pipeline [Ingest asking_env first_job, Poll demo_env] ingest_world))"
    by (auto simp: list_all_iff clar_ok_def)
  have c: "fst (processIngest dated_env first_job ingest_world) = None" by (simp add: dated_run)
  from sample_lookups x c a' b show ?thesis by (intro conjI)
qed

text \<open>
  C7 as stated fails: for an extraction with \<open>needs_clarification = false\<close> and
  \<open>due_at_iso = null\<close> the ingest worker creates a \<open>pending\<close> task whose \<open>due_at\<close> is \<open>NULL\<close>.
\<close>

theorem pending_without_due_counterexample:
  "needs_clarification (dated_extraction\<lparr>due_at_iso := None\<rparr>) = False \<and>
   processIngest_extract undated_env first_inbound alice =
     Inr (dated_extraction\<lparr>due_at_iso := None\<rparr>) \<and>
   fst (processIngest undated_env first_job ingest_world) = None \<and>
   map (\<lambda>t. (t_status t, dueAt t)) (tasks (snd (processIngest undated_env first_job ingest_world))) =
     [(Pending, None)]"
proof -
  have x: "processIngest_extract undated_env first_inbound alice =
             Inr (dated_extraction\<lparr>due_at_iso := None\<rparr>)"
    by (simp add: processIngest_extract_def undated_env_def)
  show ?thesis
    unfolding ingest_run [OF sample_lookups x]
    using x by (simp add: dated_extraction_def ingest_world_def)
qed

section \<open>Idempotence of the ingest worker\<close>

lemma map_upd_sources:
  "(\<And>t. sourceInboundId (f t) = sourceInboundId t) \<Longrightarrow>
     map sourceInboundId (map (\<lambda>t. if P t then f t else t) xs) = map sourceInboundId xs"
  by (induction xs) simp_all

lemma has_source_iff:
  "list_ex (\<lambda>t. sourceInboundId t = i) ts \<longleftrightarrow> i \<in> set (map sourceInboundId ts)"
  by (induction ts) auto

lemma anchors_recordTaskEvent [simp]: "anchors (recordTaskEvent t u ty p w) = anchors w"
  by (simp add: anchors_def recordTaskEvent_def)

lemma anchors_createOutbox [simp]: "anchors (snd (createOutbox e d w)) = anchors w"
  by (simp add: anchors_def createOutbox_def Let_def)

lemma anchors_updateOutbox: "updateOutbox i f w = Inr w' \<Longrightarrow> anchors w' = anchors w"
  by (auto simp: updateOutbox_Inr anchors_def)

lemma anchors_updateTask:
  assumes "updateTask i f w = Inr w'" and "\<And>t. sourceInboundId (f t) = sourceInboundId t"
  shows "anchors w' = anchors w"
proof -
  from assms(1) have "w' = w\<lparr>tasks := map (\<lambda>t. if taskId t = i then f t else t) (tasks w)\<rparr>"
    by (simp add: updateTask_Inr)
  then show ?thesis using map_upd_sources [of f "\<lambda>t. taskId t = i" "tasks w"] assms(2)
    by (simp add: anchors_def)
qed

lemma anchors_api_calls [simp]: "anchors (w\<lparr>api_calls := c\<rparr>) = anchors w"
  by (simp add: anchors_def)

lemma anchors_finish: "anchors (snd (processExecute_finish e t ch rc sb bd w)) = anchors w"
proof -
  let ?c = "createOutbox e
            \<lparr>ob_taskId = Some (taskId t), ob_userId = t_userId t, ob_channel = ch,
             payload = \<lparr>p_to = rc, p_subject = Some sb, p_body = bd\<rparr>,
             ob_status = Queued\<rparr> w"
  show ?thesis
  proof (cases "updateTask (taskId t) (\<lambda>x. x\<lparr>t_status := Sending\<rparr>) (snd ?c)")
    case (Inl err)
    then show ?thesis by (simp add: processExecute_finish_def split_def)
  next
    case (Inr w2)
    have "anchors w2 = anchors (snd ?c)" using Inr by (rule anchors_updateTask) simp
    then show ?thesis using Inr by (simp add: processExecute_finish_def split_def)
  qed
qed

lemma anchors_execute: "anchors (snd (processExecute e tid w)) = anchors w"
proof (cases "findTask tid w")
  case None
  then show ?thesis by (simp add: processExecute_def)
next
  case (Some t)
  show ?thesis
  proof (cases "t_status t = Due")
    case False
    then show ?thesis using Some by (simp add: processExecute_def)
  next
    case True
    let ?f = "\<lambda>x. x\<lparr>t_status := Executing, lastAttemptAt := Some (jsNow e),
                         attemptCount := attemptCount x + 1\<rparr>"
    obtain w1 where u: "updateTask tid ?f w = Inr w1" using Some by (simp add: updateTask_def)
    have a1: "anchors w1 = anchors w" using u by (rule anchors_updateTask) simp
    let ?w2 = "recordTaskEvent tid (t_userId t) EvExecuting NoPayload w1"
    have a2: "anchors ?w2 = anchors w" using a1 by simp
    show ?thesis
    proof (cases "findUser (t_userId t) w")
      case None
      then show ?thesis using Some True u a2 by (simp add: processExecute_def Let_def)
    next
      case usr: (Some usr)
      show ?thesis
      proof (cases "actionType t = ''remind''")
        case True
        then show ?thesis using Some \<open>t_status t = Due\<close> u usr a2
          by (simp add: processExecute_def Let_def anchors_finish)
      next
        case False
        show ?thesis
        proof (cases "draftFollowUp e (or_default (contactHint t) ''the contact'')
                               (or_default (t_context t) ''a follow-up'')
                               (case preferences usr of None \<Rightarrow> ''friendly'' | Some p \<Rightarrow> tone p)")
          case (Inl err)
          then show ?thesis using Some True u usr False a2
            by (simp add: processExecute_def Let_def)
        next
          case (Inr d)
          then show ?thesis using Some True u usr False a2
            by (simp add: processExecute_def Let_def anchors_finish)
        qed
      qed
    qed
  qed
qed

lemma anchors_try: "anchors (snd (pollOutbox_try e msg w)) = anchors w"
  unfolding pollOutbox_try_def
  by (auto simp: Let_def anchors_updateOutbox anchors_updateTask
           split: option.splits sum.splits prod.splits)

lemma anchors_catch: "anchors (snd (pollOutbox_catch e msg err w)) = anchors w"
  unfolding pollOutbox_catch_def
  by (auto simp: Let_def anchors_updateOutbox anchors_updateTask
           split: option.splits sum.splits prod.splits)

lemma anchors_step: "anchors (snd (pollOutbox_step e msg w)) = anchors w"
proof (cases "pollOutbox_try e msg w")
  case (Pair r w1)
  have "anchors w1 = anchors w" using anchors_try [of e msg w] Pair by simp
  then show ?thesis using Pair anchors_catch [of e msg _ w1]
    by (cases r) (simp_all add: pollOutbox_step_def)
qed

lemma anchors_loop: "anchors (snd (pollOutbox_loop e msgs w)) = anchors w"
proof (induction msgs arbitrary: w)
  case Nil
  then show ?case by simp
next
  case (Cons msg msgs)
  show ?case
  proof (cases "pollOutbox_step e msg w")
    case (Pair x w1)
    have "anchors w1 = anchors w" using anchors_step [of e msg w] Pair by simp
    then show ?thesis using Pair Cons.IH [of w1] by (cases x) simp_all
  qed
qed

lemma anchors_claimOutbox [simp]: "anchors (snd (claimOutbox e w)) = anchors w"
  by (simp add: claimOutbox_def Let_def anchors_def)

lemma anchors_poll: "anchors (snd (pollOutbox e w)) = anchors w"
proof (cases "claimOutbox e w")
  case (Pair msgs w1)
  have "anchors w1 = anchors w" using anchors_claimOutbox [of e w] Pair by simp
  then show ?thesis using Pair anchors_loop [of e msgs w1] by (simp add: pollOutbox_def)
qed

lemma inbound_enqueue [simp]: "inbound_messages (fold enqueueExecute rs w) = inbound_messages w"
  by (induction rs arbitrary: w) (simp_all add: enqueueExecute_def recordTaskEvent_def Let_def)

lemma anchors_tick: "anchors (tick e w) = anchors w"
proof -
  have i: "inbound_messages (snd (claimDueTasks e w)) = inbound_messages w"
    by (simp add: claimDueTasks_def Let_def)
  have "inbound_messages (tick e w) = inbound_messages w"
    using i by (cases "claimDueTasks e w") (simp add: tick_def)
  moreover have "map sourceInboundId (tasks (tick e w)) = map sourceInboundId (tasks w)"
    using map_upd_sources [of "\<lambda>t. t\<lparr>t_status := Due, t_updatedAt := dbNow e\<rparr>"
        "\<lambda>t. taskId t \<in> set (due_claim_ids (jsNow e) w)" "tasks w"]
    by (simp add: tick_tasks claimed_tasks)
  ultimately show ?thesis by (simp add: anchors_def)
qed

lemma inbound_emailRoutes:
  "inbound_messages (snd (emailRoutes e req w)) = inbound_messages w \<or>
   (\<exists>row. in_status row = Received \<and>
      inbound_messages (snd (emailRoutes e req w)) = inbound_messages w @ [row])"
  by (auto simp: emailRoutes_def emailRoutes_insert_def createInbound_def Let_def
           split: lookup.splits sum.splits prod.splits if_splits)

lemma anchored_alt:
  "anchored w =
     list_all (\<lambda>m. in_status m = Processed \<longrightarrow> inboundId m \<in> set (fst (anchors w)))
       (snd (anchors w))"
  by (simp add: anchored_def anchors_def has_source_iff)

lemma anchored_cong: "anchors w' = anchors w \<Longrightarrow> anchored w' = anchored w"
  by (simp only: anchored_alt)

lemma anchored_ingest:
  assumes a: "anchored w"
  shows "anchored (snd (processIngest e job w))"
proof -
  from ingest_atomic [of e job w] show ?thesis
  proof
    assume "snd (processIngest e job w) = w"
    then show ?thesis using a by simp
  next
    assume "\<exists>t row. fst (processIngest e job w) = None \<and>
      \<not> list_ex (\<lambda>s. sourceInboundId s = j_inboundId job) (tasks w) \<and>
      tasks (snd (processIngest e job w)) = tasks w @ [t] \<and>
      sourceInboundId t = j_inboundId job \<and>
      outbox (snd (processIngest e job w)) = outbox w @ [row] \<and>
      ob_taskId row = Some (taskId t) \<and> ob_status row = Queued \<and>
      inbound_messages (snd (processIngest e job w)) =
        map (\<lambda>m. if inboundId m = j_inboundId job then m\<lparr>in_status := Processed\<rparr> else m)
          (inbound_messages w)"
    then obtain t where t: "tasks (snd (processIngest e job w)) = tasks w @ [t]"
        "sourceInboundId t = j_inboundId job"
      and i: "inbound_messages (snd (processIngest e job w)) =
        map (\<lambda>m. if inboundId m = j_inboundId job then m\<lparr>in_status := Processed\<rparr> else m)
          (inbound_messages w)" by blast
    show ?thesis using a unfolding anchored_def t(1) i
      by (auto simp: list_all_iff has_source_iff t(2))
  qed
qed

lemma anchored_webhook:
  assumes a: "anchored w"
  shows "anchored (snd (emailRoutes e req w))"
  using inbound_emailRoutes [of e req w] a
  by (auto simp: anchored_def tasks_emailRoutes)

lemma anchored_run_op: "anchored w \<Longrightarrow> anchored (run_op x w)"
proof (cases x)
  case (Webhook e req)
  assume "anchored w"
  then show ?thesis using Webhook by (simp add: anchored_webhook)
next
  case (Ingest e job)
  assume "anchored w"
  then show ?thesis using Ingest by (simp add: anchored_ingest)
next
  case (Tick e)
  assume "anchored w"
  then show ?thesis using Tick anchored_cong [OF anchors_tick, of e w] by simp
next
  case (Execute e tid)
  assume "anchored w"
  then show ?thesis using Execute anchored_cong [OF anchors_execute, of e tid w] by simp
next
  case (Poll e)
  assume "anchored w"
  then show ?thesis using Poll anchored_cong [OF anchors_poll, of e w] by simp
qed

lemma anchored_pipeline: "anchored w \<Longrightarrow> anchored (pipeline ops w)"
  by (induction ops arbitrary: w) (simp_all add: anchored_run_op)

text \<open>The tasks' inbound messages after one process: the same, or one more that is new.\<close>

lemma sources_run_op:
  "map sourceInboundId (tasks (run_op x w)) = map sourceInboundId (tasks w) \<or>
   (\<exists>i. i \<notin> set (map sourceInboundId (tasks w)) \<and>
        map sourceInboundId (tasks (run_op x w)) = map sourceInboundId (tasks w) @ [i])"
proof (cases x)
  case (Webhook e req)
  then show ?thesis by (simp add: tasks_emailRoutes)
next
  case (Ingest e job)
  from ingest_atomic [of e job w] show ?thesis
  proof
    assume "snd (processIngest e job w) = w"
    then show ?thesis using Ingest by simp
  next
    assume "\<exists>t row. fst (processIngest e job w) = None \<and>
      \<not> list_ex (\<lambda>s. sourceInboundId s = j_inboundId job) (tasks w) \<and>
      tasks (snd (processIngest e job w)) = tasks w @ [t] \<and>
      sourceInboundId t = j_inboundId job \<and>
      outbox (snd (processIngest e job w)) = outbox w @ [row] \<and>
      ob_taskId row = Some (taskId t) \<and> ob_status row = Queued \<and>
      inbound_messages (snd (processIngest e job w)) =
        map (\<lambda>m. if inboundId m = j_inboundId job then m\<lparr>in_status := Processed\<rparr> else m)
          (inbound_messages w)"
    then obtain t where t: "tasks (snd (processIngest e job w)) = tasks w @ [t]"
        "sourceInboundId t = j_inboundId job"
        "\<not> list_ex (\<lambda>s. sourceInboundId s = j_inboundId job) (tasks w)" by blast
    from t(3) have "j_inboundId job \<notin> set (map sourceInboundId (tasks w))"
      unfolding has_source_iff .
    then show ?thesis using Ingest t(1,2) by simp
  qed
next
  case (Tick e)
  have "fst (anchors (tick e w)) = fst (anchors w)" by (simp add: anchors_tick)
  then show ?thesis using Tick by (simp add: anchors_def)
next
  case (Execute e tid)
  have "fst (anchors (snd (processExecute e tid w))) = fst (anchors w)"
    by (simp add: anchors_execute)
  then show ?thesis using Execute by (simp add: anchors_def)
next
  case (Poll e)
  have "fst (anchors (snd (pollOutbox e w))) = fst (anchors w)" by (simp add: anchors_poll)
  then show ?thesis using Poll by (simp add: anchors_def)
qed

lemma sources_grow:
  "set (map sourceInboundId (tasks w)) \<subseteq> set (map sourceInboundId (tasks (run_op x w)))"
  using sources_run_op [of x w]
proof (elim disjE exE conjE)
  assume eq: "map sourceInboundId (tasks (run_op x w)) = map sourceInboundId (tasks w)"
  show ?thesis unfolding eq by simp
next
  fix i
  assume eq: "map sourceInboundId (tasks (run_op x w)) = map sourceInboundId (tasks w) @ [i]"
  show ?thesis unfolding eq by auto
qed

lemma sources_distinct_run_op:
  "distinct (map sourceInboundId (tasks w)) \<Longrightarrow>
     distinct (map sourceInboundId (tasks (run_op x w)))"
  using sources_run_op [of x w]
proof (elim disjE exE conjE)
  assume "distinct (map sourceInboundId (tasks w))"
    and eq: "map sourceInboundId (tasks (run_op x w)) = map sourceInboundId (tasks w)"
  then show ?thesis unfolding eq by simp
next
  fix i
  assume "distinct (map sourceInboundId (tasks w))"
    and "i \<notin> set (map sourceInboundId (tasks w))"
    and eq: "map sourceInboundId (tasks (run_op x w)) = map sourceInboundId (tasks w) @ [i]"
  then show ?thesis unfolding eq by simp
qed

lemma sources_distinct_pipeline:
  "distinct (map sourceInboundId (tasks w)) \<Longrightarrow>
     distinct (map sourceInboundId (tasks (pipeline ops w)))"
proof (induction ops arbitrary: w)
  case Nil
  then show ?case by simp
next
  case (Cons x ops)
  have "distinct (map sourceInboundId (tasks (run_op x w)))"
    using Cons.prems by (rule sources_distinct_run_op)
  then show ?case using Cons.IH by simp
qed

lemma task_stays:
  "i \<in> set (map sourceInboundId (tasks w)) \<Longrightarrow>
     i \<in> set (map sourceInboundId (tasks (pipeline ops w)))"
proof (induction ops arbitrary: w)
  case Nil
  then show ?case by simp
next
  case (Cons x ops)
  have "i \<in> set (map sourceInboundId (tasks (run_op x w)))"
    using sources_grow [of w x] Cons.prems by blast
  then show ?case using Cons.IH by simp
qed

lemma ingest_has_task:
  assumes "list_ex (\<lambda>t. sourceInboundId t = j_inboundId job) (tasks w)"
  shows "snd (processIngest e job w) = w"
  using ingest_atomic [of e job w] assms by blast

text \<open>
  C1. When the inbound row is missing, \<open>processIngest\<close> returns with the store unchanged.
  In every store the pipeline reaches from one in which each processed inbound row has
  its task, a job for an inbound row that is \<open>processed\<close> writes nothing. Once a task for
  an inbound message exists, every later job for that message writes nothing, whatever
  the pipeline has done in between: the job reaches \<open>prisma.task.create\<close>, which is the
  first write, and the store refuses the second task for the message. A run writes
  nothing at all, or it creates exactly one task, for a message that had none, and one
  queued outbox row for it and sets the inbound row to \<open>processed\<close>. So the tasks keep
  pairwise different inbound messages through every run of the pipeline.
\<close>

theorem ingest_idempotent:
  "(findInbound (j_inboundId job) w = None \<longrightarrow> processIngest e job w = (None, w))
   \<and>
   (anchored v \<and> findInbound (j_inboundId job) (pipeline ops v) = Some m \<and>
    in_status m = Processed
    \<longrightarrow> snd (processIngest e job (pipeline ops v)) = pipeline ops v)
   \<and>
   (list_ex (\<lambda>t. sourceInboundId t = j_inboundId job) (tasks v)
    \<longrightarrow> snd (processIngest e job (pipeline ops v)) = pipeline ops v)
   \<and>
   (snd (processIngest e job w) = w \<or>
    (\<exists>t row. fst (processIngest e job w) = None \<and>
       \<not> list_ex (\<lambda>s. sourceInboundId s = j_inboundId job) (tasks w) \<and>
       tasks (snd (processIngest e job w)) = tasks w @ [t] \<and>
       sourceInboundId t = j_inboundId job \<and>
       outbox (snd (processIngest e job w)) = outbox w @ [row] \<and>
       ob_taskId row = Some (taskId t) \<and> ob_status row = Queued \<and>
       inbound_messages (snd (processIngest e job w)) =
         map (\<lambda>m. if inboundId m = j_inboundId job then m\<lparr>in_status := Processed\<rparr> else m)
           (inbound_messages w)))
   \<and>
   (distinct (map sourceInboundId (tasks v))
    \<longrightarrow> distinct (map sourceInboundId (tasks (pipeline ops v))))"
proof -
  have p1: "findInbound (j_inboundId job) w = None \<longrightarrow> processIngest e job w = (None, w)"
    using ingest_absent by blast
  have p2: "anchored v \<and> findInbound (j_inboundId job) (pipeline ops v) = Some m \<and>
    in_status m = Processed
    \<longrightarrow> snd (processIngest e job (pipeline ops v)) = pipeline ops v"
  proof
    assume h: "anchored v \<and> findInbound (j_inboundId job) (pipeline ops v) = Some m \<and>
      in_status m = Processed"
    then have a: "anchored (pipeline ops v)" by (simp add: anchored_pipeline)
    from h have "m \<in> set (inbound_messages (pipeline ops v)) \<and> inboundId m = j_inboundId job"
      by (auto simp: findInbound_def find_Some_iff in_set_conv_nth)
    with a h have "list_ex (\<lambda>t. sourceInboundId t = j_inboundId job) (tasks (pipeline ops v))"
      unfolding anchored_def list_all_iff by metis
    then show "snd (processIngest e job (pipeline ops v)) = pipeline ops v"
      by (rule ingest_has_task)
  qed
  have p3: "list_ex (\<lambda>t. sourceInboundId t = j_inboundId job) (tasks v)
    \<longrightarrow> snd (processIngest e job (pipeline ops v)) = pipeline ops v"
  proof
    assume "list_ex (\<lambda>t. sourceInboundId t = j_inboundId job) (tasks v)"
    then have "j_inboundId job \<in> set (map sourceInboundId (tasks v))"
      unfolding has_source_iff .
    then have "j_inboundId job \<in> set (map sourceInboundId (tasks (pipeline ops v)))"
      by (rule task_stays)
    then have "list_ex (\<lambda>t. sourceInboundId t = j_inboundId job) (tasks (pipeline ops v))"
      unfolding has_source_iff .
    then show "snd (processIngest e job (pipeline ops v)) = pipeline ops v"
      by (rule ingest_has_task)
  qed
  note p4 = ingest_atomic [of e job w]
  have p5: "distinct (map sourceInboundId (tasks v))
    \<longrightarrow> distinct (map sourceInboundId (tasks (pipeline ops v)))"
    using sources_distinct_pipeline by blast
  from p1 p2 p3 p4 p5 show ?thesis by (intro conjI)
qed

theorem ingest_idempotent_witness:
  "processIngest dated_env \<lparr>j_inboundId = ''i9'', j_userId = ''u1''\<rparr> ingest_world =
     (None, ingest_world) \<and>
   anchored ingest_world \<and>
   findInbound (j_inboundId first_job) (pipeline [Ingest dated_env first_job] ingest_world) =
     Some (first_inbound\<lparr>in_status := Processed\<rparr>) \<and>
   snd (processIngest asking_env first_job (pipeline [Ingest dated_env first_job] ingest_world)) =
     pipeline [Ingest dated_env first_job] ingest_world \<and>
   map sourceInboundId (tasks (pipeline [Ingest dated_env first_job] ingest_world)) = [''i1''] \<and>
   snd (processIngest dated_env first_job
          (pipeline [Tick sched_env, Ingest asking_env first_job]
             (pipeline [Ingest dated_env first_job] ingest_world))) =
     pipeline [Tick sched_env, Ingest asking_env first_job]
       (pipeline [Ingest dated_env first_job] ingest_world) \<and>
   distinct (map sourceInboundId
     (tasks (pipeline [Ingest dated_env first_job, Ingest asking_env first_job, Poll demo_env]
               ingest_world)))"
proof -
  let ?w1 = "pipeline [Ingest dated_env first_job] ingest_world"
  let ?lost = "\<lparr>j_inboundId = ''i9'', j_userId = ''u1''\<rparr>"
  have w1: "?w1 = snd (processIngest dated_env first_job ingest_world)" by simp
  have p1: "processIngest dated_env ?lost ingest_world = (None, ingest_world)"
  proof -
    have "findInbound (j_inboundId ?lost) ingest_world = None"
      by (simp add: findInbound_def ingest_sample_defs)
    with ingest_idempotent [where job = "?lost" and w = ingest_world and e = dated_env,
        THEN conjunct1] show ?thesis by (rule mp)
  qed
  have a: "anchored ingest_world"
    by (simp add: anchored_def ingest_world_def first_inbound_def)
  have ib: "findInbound (j_inboundId first_job) ?w1 = Some (first_inbound\<lparr>in_status := Processed\<rparr>)"
    unfolding w1 dated_run by (simp add: findInbound_def first_job_def first_inbound_def)
  have st: "in_status (first_inbound\<lparr>in_status := Processed\<rparr>) = Processed" by simp
  have p2: "snd (processIngest asking_env first_job ?w1) = ?w1"
    using ingest_idempotent [where job = first_job and v = ingest_world
        and ops = "[Ingest dated_env first_job]" and e = asking_env
        and m = "first_inbound\<lparr>in_status := Processed\<rparr>",
        THEN conjunct2, THEN conjunct1] a ib st
    by (rule_tac mp) (assumption, intro conjI)
  have src: "map sourceInboundId (tasks ?w1) = [''i1'']"
    unfolding w1 dated_run by simp
  have ex: "list_ex (\<lambda>t. sourceInboundId t = j_inboundId first_job) (tasks ?w1)"
    unfolding has_source_iff src by (simp add: first_job_def)
  have p3: "snd (processIngest dated_env first_job
          (pipeline [Tick sched_env, Ingest asking_env first_job] ?w1)) =
     pipeline [Tick sched_env, Ingest asking_env first_job] ?w1"
    using ingest_idempotent [where job = first_job and v = ?w1
        and ops = "[Tick sched_env, Ingest asking_env first_job]" and e = dated_env,
        THEN conjunct2, THEN conjunct2, THEN conjunct1] ex
    by (rule mp)
  have p5: "distinct (map sourceInboundId
     (tasks (pipeline [Ingest dated_env first_job, Ingest asking_env first_job, Poll demo_env]
               ingest_world)))"
  proof -
    have "distinct (map sourceInboundId (tasks ingest_world))" by (simp add: ingest_world_def)
    with ingest_idempotent [where v = ingest_world
        and ops = "[Ingest dated_env first_job, Ingest asking_env first_job, Poll demo_env]",
        THEN conjunct2, THEN conjunct2, THEN conjunct2, THEN conjunct2] show ?thesis by (rule mp)
  qed
  from p1 a ib p2 src p3 p5 show ?thesis by (intro conjI)
qed
end
